theory Spec2Isabelle
  imports Complex_Main
begin

section \<open>Python strings\<close>

text \<open>
  A Python \<open>str\<close> is a sequence of Unicode code points; a code point is an integer
  (what \<open>ord\<close> returns).
  The string methods and regular expressions that \<open>prepare_permits.py\<close> uses are modelled
  on the alphabet \<open>modelled\<close>: the ASCII code points and three letters whose upper-case
  form has two code points (U+00DF sharp s, U+FB05 and U+FB06, the ligatures of long s
  with t and of s with t). On that alphabet the functions below compute what Python
  computes. Any other code point is carried through unchanged and belongs to no character
  class; the theorems about all strings are stated for ASCII strings.
\<close>

type_synonym uchar = int
type_synonym ustring = "int list"

definition ustr :: "string \<Rightarrow> ustring" where
  "ustr s = map of_char s"

definition is_ascii :: "ustring \<Rightarrow> bool" where
  "is_ascii s = list_all (\<lambda>c. 0 \<le> c \<and> c < 128) s"

definition modelled :: "uchar \<Rightarrow> bool" where
  "modelled c = ((0 \<le> c \<and> c < 128) \<or> c = 223 \<or> c = 64261 \<or> c = 64262)"

definition is_space :: "uchar \<Rightarrow> bool" where
  \<comment> \<open>\<open>str.isspace\<close> and the regular expression class \<open>\s\<close>: tab, line feed, vertical tab,
      form feed, carriage return, the separators U+001C to U+001F, and the space.\<close>
  "is_space c = ((9 \<le> c \<and> c \<le> 13) \<or> (28 \<le> c \<and> c \<le> 32))"

definition is_upper_letter :: "uchar \<Rightarrow> bool" where
  "is_upper_letter c = (65 \<le> c \<and> c \<le> 90)"

definition is_lower_letter :: "uchar \<Rightarrow> bool" where
  "is_lower_letter c = (97 \<le> c \<and> c \<le> 122)"

definition is_digit :: "uchar \<Rightarrow> bool" where
  "is_digit c = (48 \<le> c \<and> c \<le> 57)"

definition is_special_lower :: "uchar \<Rightarrow> bool" where
  "is_special_lower c = (c = 223 \<or> c = 64261 \<or> c = 64262)"

definition is_cased :: "uchar \<Rightarrow> bool" where
  "is_cased c = (is_upper_letter c \<or> is_lower_letter c \<or> is_special_lower c)"

definition is_word_char :: "uchar \<Rightarrow> bool" where
  \<comment> \<open>the regular expression class \<open>\w\<close>: letters, digits and the underscore\<close>
  "is_word_char c = (is_cased c \<or> is_digit c \<or> c = 95)"

definition char_lower :: "uchar \<Rightarrow> uchar" where
  "char_lower c = (if is_upper_letter c then c + 32 else c)"

definition char_upper :: "uchar \<Rightarrow> ustring" where
  \<comment> \<open>the full upper-case mapping: one code point may become two\<close>
  "char_upper c =
     (if is_lower_letter c then [c - 32]
      else if c = 223 then [83, 83]
      else if c = 64261 \<or> c = 64262 then [83, 84]
      else [c])"

definition char_title :: "uchar \<Rightarrow> ustring" where
  \<comment> \<open>the full title-case mapping\<close>
  "char_title c =
     (if is_lower_letter c then [c - 32]
      else if c = 223 then [83, 115]
      else if c = 64261 \<or> c = 64262 then [83, 116]
      else [c])"

definition py_upper :: "ustring \<Rightarrow> ustring" where
  "py_upper s = concat (map char_upper s)"

fun title_from :: "bool \<Rightarrow> ustring \<Rightarrow> ustring" where
  "title_from previous_is_cased [] = []"
| "title_from previous_is_cased (c # cs) =
     (if previous_is_cased then [char_lower c] else char_title c) @ title_from (is_cased c) cs"

definition py_title :: "ustring \<Rightarrow> ustring" where
  \<comment> \<open>\<open>str.title\<close>: a cased character is lower-cased after a cased character and
      title-cased anywhere else\<close>
  "py_title s = title_from False s"

definition py_strip :: "ustring \<Rightarrow> ustring" where
  "py_strip s = rev (dropWhile is_space (rev (dropWhile is_space s)))"

definition py_remove :: "uchar \<Rightarrow> ustring \<Rightarrow> ustring" where
  \<comment> \<open>\<open>s.replace(c, '')\<close> for a single character \<open>c\<close>\<close>
  "py_remove c s = filter (\<lambda>x. x \<noteq> c) s"

fun py_join :: "ustring \<Rightarrow> ustring list \<Rightarrow> ustring" where
  "py_join sep [] = []"
| "py_join sep [x] = x"
| "py_join sep (x # y # ys) = x @ sep @ py_join sep (y # ys)"

section \<open>The regular expressions of the address cleaners\<close>

text \<open>\<open>re.sub(r'\s+', ' ', s)\<close>: every maximal run of whitespace becomes one space.\<close>

function re_collapse_ws :: "ustring \<Rightarrow> ustring" where
  "re_collapse_ws [] = []"
| "re_collapse_ws (c # cs) =
     (if is_space c then 32 # re_collapse_ws (dropWhile is_space cs)
      else c # re_collapse_ws cs)"
  by pat_completeness auto
termination
  by (relation "measure length") (auto simp: less_Suc_eq_le length_dropWhile_le)

text \<open>
  \<open>re.sub(r'\bPAT\b', repl, s)\<close> for a literal pattern \<open>PAT\<close>, with or without
  \<open>re.IGNORECASE\<close>. The scan goes from left to right; \<open>prev\<close> says whether the
  character before the current position is a word character (\<open>False\<close> at the start of
  the string). A word boundary \<open>\b\<close> is a position with a word character on exactly one
  side. A match is replaced and the scan goes on behind it; otherwise one character is
  copied.
\<close>

definition ch_match :: "bool \<Rightarrow> uchar \<Rightarrow> uchar \<Rightarrow> bool" where
  "ch_match ignorecase p c = (if ignorecase then char_lower c = char_lower p else c = p)"

definition at_boundary :: "bool \<Rightarrow> ustring \<Rightarrow> bool" where
  "at_boundary prev s = (prev \<noteq> (case s of [] \<Rightarrow> False | c # _ \<Rightarrow> is_word_char c))"

definition word_at :: "bool \<Rightarrow> ustring \<Rightarrow> bool \<Rightarrow> ustring \<Rightarrow> bool" where
  "word_at ignorecase pat prev s =
     (pat \<noteq> [] \<and> at_boundary prev s \<and> length pat \<le> length s \<and>
      list_all2 (ch_match ignorecase) pat (take (length pat) s) \<and>
      at_boundary (is_word_char (last (take (length pat) s))) (drop (length pat) s))"

fun re_sub_from :: "bool \<Rightarrow> ustring \<Rightarrow> ustring \<Rightarrow> bool \<Rightarrow> ustring \<Rightarrow> ustring" where
  "re_sub_from ignorecase pat repl prev [] = []"
| "re_sub_from ignorecase pat repl prev (c # cs) =
     (if word_at ignorecase pat prev (c # cs)
      then repl @ re_sub_from ignorecase pat repl
             (is_word_char (last (c # take (length pat - 1) cs))) (drop (length pat - 1) cs)
      else c # re_sub_from ignorecase pat repl (is_word_char c) cs)"

definition re_sub_word :: "bool \<Rightarrow> ustring \<Rightarrow> ustring \<Rightarrow> ustring \<Rightarrow> ustring" where
  "re_sub_word ignorecase pat repl s = re_sub_from ignorecase pat repl False s"

section \<open>The address cleaners\<close>

datatype pyval =
    PNone
  | PStr ustring
  | PObj (obj_truthy: bool) (obj_hashable: bool) (obj_str: ustring)

text \<open>
  A value of a raw record (\<open>Dict[str, Any]\<close>) is \<open>None\<close>, a string, or any other object.
  The processor only tests such an object for truth, hashes it and formats it with
  \<open>str\<close>, so \<open>PObj\<close> carries these three observations; it is never equal to a string.
\<close>

fun truthy :: "pyval \<Rightarrow> bool" where
  "truthy PNone = False"
| "truthy (PStr s) = (s \<noteq> [])"
| "truthy (PObj t h r) = t"

fun hashable :: "pyval \<Rightarrow> bool" where
  "hashable PNone = True"
| "hashable (PStr s) = True"
| "hashable (PObj t h r) = h"

fun py_str :: "pyval \<Rightarrow> ustring" where
  "py_str PNone = ustr ''None''"
| "py_str (PStr s) = s"
| "py_str (PObj t h r) = r"

definition sub_all :: "bool \<Rightarrow> (ustring \<times> ustring) list \<Rightarrow> ustring \<Rightarrow> ustring" where
  \<comment> \<open>\<open>for full, abbrev in table.items(): address = re.sub(..., address)\<close>\<close>
  "sub_all ignorecase table address =
     fold (\<lambda>(full, abbrev) a. re_sub_word ignorecase full abbrev a) table address"

definition directional_map :: "(ustring \<times> ustring) list" where
  "directional_map =
     [(ustr ''NORTH'', ustr ''N''), (ustr ''SOUTH'', ustr ''S''),
      (ustr ''EAST'', ustr ''E''), (ustr ''WEST'', ustr ''W''),
      (ustr ''NORTHEAST'', ustr ''NE''), (ustr ''NORTHWEST'', ustr ''NW''),
      (ustr ''SOUTHEAST'', ustr ''SE''), (ustr ''SOUTHWEST'', ustr ''SW'')]"

definition street_types :: "(ustring \<times> ustring) list" where
  "street_types =
     [(ustr ''STREET'', ustr ''ST''), (ustr ''AVENUE'', ustr ''AVE''),
      (ustr ''BOULEVARD'', ustr ''BLVD''), (ustr ''DRIVE'', ustr ''DR''),
      (ustr ''ROAD'', ustr ''RD''), (ustr ''LANE'', ustr ''LN''),
      (ustr ''COURT'', ustr ''CT''), (ustr ''PLACE'', ustr ''PL'')]"

definition clean_address :: "pyval \<Rightarrow> ustring" where
  "clean_address address =
     (if \<not> truthy address then []
      else py_upper (sub_all True street_types (sub_all True directional_map
             (re_collapse_ws (py_strip (py_str address))))))"

definition cache_abbreviations :: "(ustring \<times> ustring) list" where
  "cache_abbreviations =
     [(ustr ''Fl'', ustr ''FL''), (ustr ''Rd'', ustr ''Rd''), (ustr ''St'', ustr ''St''),
      (ustr ''Ave'', ustr ''Ave''), (ustr ''Dr'', ustr ''Dr''), (ustr ''Ln'', ustr ''Ln''),
      (ustr ''Ct'', ustr ''Ct''), (ustr ''Pl'', ustr ''Pl''), (ustr ''Blvd'', ustr ''Blvd'')]"

definition clean_address_for_cache :: "ustring \<Rightarrow> ustring" where
  "clean_address_for_cache address =
     (if address = [] then []
      else sub_all False cache_abbreviations (py_title (re_collapse_ws (py_strip address))))"

section \<open>Parsing a number with \<open>float\<close>\<close>

text \<open>
  \<open>float(s)\<close> for a string: underscores between digits are dropped, blanks at both ends
  are skipped, and what is left is a sign followed by \<open>inf\<close>, \<open>infinity\<close> or \<open>nan\<close> (in any
  case) or by a decimal number with an optional exponent. Anything else raises
  \<open>ValueError\<close>, here \<open>None\<close>. The result is the exact value of the decimal numeral;
  rounding to a double, overflow to infinity and the sign of zero are not modelled.
\<close>

datatype pyfloat = FNum rat | FInf bool | FNaN

definition c_isspace :: "uchar \<Rightarrow> bool" where
  "c_isspace c = ((9 \<le> c \<and> c \<le> 13) \<or> c = 32)"

fun strip_underscores :: "uchar \<Rightarrow> ustring \<Rightarrow> ustring option" where
  "strip_underscores prev [] = (if prev = 95 then None else Some [])"
| "strip_underscores prev (c # cs) =
     (if c = 95 then (if is_digit prev then strip_underscores c cs else None)
      else if prev = 95 \<and> \<not> is_digit c then None
      else map_option ((#) c) (strip_underscores c cs))"

definition split_sign :: "ustring \<Rightarrow> bool \<times> ustring" where
  "split_sign s =
     (case s of
        [] \<Rightarrow> (False, [])
      | c # cs \<Rightarrow> if c = 45 then (True, cs) else if c = 43 then (False, cs) else (False, s))"

definition digits_value :: "ustring \<Rightarrow> nat" where
  "digits_value ds = foldl (\<lambda>a c. 10 * a + nat (c - 48)) 0 ds"

definition scale10 :: "rat \<Rightarrow> int \<Rightarrow> rat" where
  "scale10 m e = (if 0 \<le> e then m * 10 ^ nat e else m / 10 ^ nat (- e))"

definition parse_number :: "ustring \<Rightarrow> rat option" where
  "parse_number r =
     (let int_part = takeWhile is_digit r;
          r1 = dropWhile is_digit r;
          (frac_part, r2) =
            (case r1 of
               [] \<Rightarrow> ([], [])
             | c # cs \<Rightarrow>
                 if c = 46 then (takeWhile is_digit cs, dropWhile is_digit cs) else ([], r1));
          mantissa = of_nat (digits_value (int_part @ frac_part))
      in if int_part = [] \<and> frac_part = [] then None
         else case r2 of
           [] \<Rightarrow> Some (scale10 mantissa (- int (length frac_part)))
         | e # r3 \<Rightarrow>
             if e = 101 \<or> e = 69 then
               (let (exp_negative, r4) = split_sign r3
                in if r4 \<noteq> [] \<and> list_all is_digit r4
                   then Some (scale10 mantissa
                          ((if exp_negative then - int (digits_value r4) else int (digits_value r4))
                           - int (length frac_part)))
                   else None)
             else None)"

definition py_float :: "ustring \<Rightarrow> pyfloat option" where
  "py_float s =
     (case strip_underscores 0 s of
        None \<Rightarrow> None
      | Some u \<Rightarrow>
          (let t = rev (dropWhile c_isspace (rev (dropWhile c_isspace u)));
               (negative, r) = split_sign t;
               word = map char_lower r
           in if word = ustr ''inf'' \<or> word = ustr ''infinity'' then Some (FInf negative)
              else if word = ustr ''nan'' then Some FNaN
              else map_option (\<lambda>q. FNum (if negative then - q else q)) (parse_number r)))"

section \<open>Records, cache and processor state\<close>

text \<open>
  A raw permit is a dictionary from field names to values. The processor reads it only
  at the field names written in the source, so it is a partial function on those names.
  \<open>normalized_data\<close> is the dictionary that \<open>normalize_permit\<close> builds; besides raw values
  and strings it holds the parsed permit value and the coordinates.
\<close>

type_synonym raw_permit = "string \<rightharpoonup> pyval"

datatype nval = NRaw pyval | NFloat pyfloat | NCoords rat rat

type_synonym normalized_data = "string \<rightharpoonup> nval"

fun n_truthy :: "nval \<Rightarrow> bool" where
  "n_truthy (NRaw v) = truthy v"
| "n_truthy (NFloat f) = (f \<noteq> FNum 0)"
| "n_truthy (NCoords lat lng) = True"

record normalized_permit =
  permit_id :: nval
  source_county :: nval
  permit_type :: nval
  description :: nval
  address :: nval
  city :: nval
  zipcode :: nval
  coordinates :: nval
  applicant_name :: nval
  contractor_name :: nval
  permit_value :: nval
  issue_date :: nval
  expiration_date :: nval
  status :: nval
  last_updated :: nval

datatype py_error = TypeError

datatype cache_val = CNull | CList "rat list"

datatype response = RError | REmpty | RResult rat rat

datatype event = ApiCall ustring | CacheSaved

text \<open>
  The environment of a run: the geocoding service (its answer to the \<open>n\<close>-th request, for an
  address; \<open>RError\<close> stands for any exception inside the \<open>try\<close> block), and the clock as the
  two strings the processor formats from it.
\<close>

record env =
  geocoder :: "nat \<Rightarrow> ustring \<Rightarrow> response"
  today :: ustring
  now_iso :: ustring

text \<open>
  The processor object, with the effects it has had on the outside world so far: the
  requests sent to the geocoding service and the writes of the cache file, oldest first.
\<close>

record processor =
  enable_geocoding :: bool
  google_api_key :: "ustring option"
  geocode_cache :: "ustring \<rightharpoonup> cache_val"
  events :: "event list"

definition miami_dade_mapping :: "(string \<times> string) list" where
  "miami_dade_mapping =
     [(''permit_id'', ''FOLIO''), (''permit_type'', ''PERMIT_TYPE''),
      (''description'', ''DESC1''), (''address'', ''ADDRESS''), (''city'', ''CITY''),
      (''zipcode'', ''ZIP''), (''applicant_name'', ''APPLICANT''),
      (''contractor_name'', ''CONTRACTOR''), (''permit_value'', ''JOB_VAL''),
      (''issue_date'', ''ISSUDATE''), (''expiration_date'', ''EXPRDATE''),
      (''status'', ''STATUS'')]"

definition hillsborough_mapping :: "(string \<times> string) list" where
  "hillsborough_mapping =
     [(''permit_id'', ''Record Number''), (''permit_type'', ''Record Type''),
      (''description'', ''Description''), (''address'', ''Address''), (''city'', ''City''),
      (''zipcode'', ''Zip''), (''applicant_name'', ''Applicant Name''),
      (''contractor_name'', ''Contractor Name''), (''permit_value'', ''Estimated Value''),
      (''issue_date'', ''Date''), (''expiration_date'', ''Expiration Date''),
      (''status'', ''Status'')]"

definition field_mappings_get :: "pyval \<Rightarrow> py_error + (string \<times> string) list" where
  \<comment> \<open>\<open>self.field_mappings.get(county, {})\<close>: hashing an unhashable key raises \<open>TypeError\<close>\<close>
  "field_mappings_get county =
     (if \<not> hashable county then Inl TypeError
      else if county = PStr (ustr ''miami-dade'') then Inr miami_dade_mapping
      else if county = PStr (ustr ''hillsborough'') then Inr hillsborough_mapping
      else Inr [])"

definition new_processor :: "bool \<Rightarrow> ustring option \<Rightarrow> (ustring \<rightharpoonup> cache_val) \<Rightarrow> processor" where
  \<comment> \<open>\<open>PermitProcessor(enable_geocoding)\<close>, with the API key of the environment and the
      cache that \<open>load_geocoding_cache\<close> returned (empty when the file is missing or broken)\<close>
  "new_processor enable api_key loaded =
     \<lparr>enable_geocoding = enable, google_api_key = api_key, geocode_cache = loaded, events = []\<rparr>"

definition save_geocoding_cache :: "processor \<Rightarrow> processor" where
  "save_geocoding_cache s = s\<lparr>events := events s @ [CacheSaved]\<rparr>"

section \<open>Geocoding with the cache\<close>

definition py_strip_chars :: "ustring \<Rightarrow> ustring \<Rightarrow> ustring" where
  "py_strip_chars chars s =
     rev (dropWhile (\<lambda>c. c \<in> set chars) (rev (dropWhile (\<lambda>c. c \<in> set chars) s)))"

definition full_address_of :: "ustring \<Rightarrow> pyval \<Rightarrow> pyval \<Rightarrow> ustring" where
  "full_address_of addr cty zipc =
     (if truthy cty \<or> truthy zipc
      then py_strip_chars (ustr '', '')
             (addr @ ustr '', '' @ py_str cty @ ustr '', FL '' @ py_str zipc)
      else py_strip addr)"

fun cache_hit :: "(ustring \<rightharpoonup> cache_val) \<Rightarrow> ustring list \<Rightarrow> (rat \<times> rat) option" where
  "cache_hit cache [] = None"
| "cache_hit cache (cache_key # cache_keys) =
     (case cache cache_key of
        None \<Rightarrow> cache_hit cache cache_keys
      | Some CNull \<Rightarrow> cache_hit cache cache_keys
      | Some (CList cached_result) \<Rightarrow>
          if cached_result \<noteq> [] \<and> length cached_result = 2
          then Some (cached_result ! 0, cached_result ! 1)
          else cache_hit cache cache_keys)"

definition api_calls :: "event list \<Rightarrow> nat" where
  "api_calls es = length (filter (\<lambda>e. e \<noteq> CacheSaved) es)"

definition geocode_address ::
  "env \<Rightarrow> processor \<Rightarrow> ustring \<Rightarrow> pyval \<Rightarrow> pyval \<Rightarrow> (rat \<times> rat) option \<times> processor" where
  "geocode_address e s addr cty zipc =
     (if \<not> enable_geocoding s then (None, s)
      else
        let full_address = full_address_of addr cty zipc;
            normalized_address = clean_address_for_cache full_address
        in case cache_hit (geocode_cache s) [full_address, normalized_address] of
             Some c \<Rightarrow> (Some c, s)
           | None \<Rightarrow>
               if google_api_key s = None \<or> google_api_key s = Some [] then (None, s)
               else
                 let called = s\<lparr>events := events s @ [ApiCall full_address]\<rparr>
                 in case geocoder e (api_calls (events s)) full_address of
                      RResult lat lng \<Rightarrow>
                        (Some (lat, lng),
                         save_geocoding_cache
                           (called\<lparr>geocode_cache :=
                              (geocode_cache s)(full_address \<mapsto> CList [lat, lng])\<rparr>))
                    | REmpty \<Rightarrow>
                        (None,
                         save_geocoding_cache
                           (called\<lparr>geocode_cache := (geocode_cache s)(full_address \<mapsto> CNull)\<rparr>))
                    | RError \<Rightarrow> (None, called))"

section \<open>Normalizing one permit\<close>

definition map_fields :: "(string \<times> string) list \<Rightarrow> raw_permit \<Rightarrow> normalized_data \<Rightarrow> normalized_data" where
  "map_fields mapping raw nd =
     fold (\<lambda>(standard_field, source_field) d.
             case raw source_field of
               None \<Rightarrow> d
             | Some v \<Rightarrow> if v \<noteq> PNone then d(standard_field \<mapsto> NRaw v) else d)
       mapping nd"

definition digit_char :: "nat \<Rightarrow> char" where
  "digit_char n = ''0123456789'' ! n"

function str_nat :: "nat \<Rightarrow> string" where
  "str_nat n = (if n < 10 then [digit_char n] else str_nat (n div 10) @ [digit_char (n mod 10)])"
  by pat_completeness auto
termination
  by (relation "measure (\<lambda>n. n)") auto

definition desc_parts :: "raw_permit \<Rightarrow> ustring list" where
  "desc_parts raw =
     concat (map (\<lambda>i. case raw (''DESC'' @ str_nat i) of
                         None \<Rightarrow> []
                       | Some v \<Rightarrow> if truthy v then [py_strip (py_str v)] else [])
               [1..<11])"

definition join_descriptions :: "pyval \<Rightarrow> raw_permit \<Rightarrow> normalized_data \<Rightarrow> normalized_data" where
  "join_descriptions county raw nd =
     (if county = PStr (ustr ''miami-dade'')
      then (if desc_parts raw \<noteq> []
            then nd(''description'' \<mapsto> NRaw (PStr (py_join (ustr '' | '') (desc_parts raw))))
            else nd)
      else nd)"

text \<open>
  The entries that the next steps read are raw values or strings: a float or a pair of
  coordinates is only ever stored under \<open>permit_value\<close> and \<open>coordinates\<close>, after the read.
\<close>

definition convert_permit_value :: "normalized_data \<Rightarrow> normalized_data" where
  "convert_permit_value nd =
     (case nd ''permit_value'' of
        Some (NRaw v) \<Rightarrow>
          (let value_str = py_strip (py_remove 44 (py_remove 36 (py_str v)))
           in nd(''permit_value'' \<mapsto>
                (if value_str \<noteq> []
                 then (case py_float value_str of Some f \<Rightarrow> NFloat f | None \<Rightarrow> NRaw PNone)
                 else NRaw PNone)))
      | _ \<Rightarrow> nd)"

definition clean_address_field :: "normalized_data \<Rightarrow> normalized_data" where
  "clean_address_field nd =
     (case nd ''address'' of
        Some (NRaw v) \<Rightarrow> nd(''address'' \<mapsto> NRaw (PStr (clean_address v)))
      | _ \<Rightarrow> nd)"

definition get_or_empty :: "normalized_data \<Rightarrow> string \<Rightarrow> pyval" where
  \<comment> \<open>\<open>normalized_data.get(key, '')\<close>\<close>
  "get_or_empty nd key = (case nd key of Some (NRaw v) \<Rightarrow> v | _ \<Rightarrow> PStr [])"

definition geocode_step :: "env \<Rightarrow> processor \<Rightarrow> normalized_data \<Rightarrow> normalized_data \<times> processor" where
  "geocode_step e s nd =
     (if enable_geocoding s \<and> truthy (get_or_empty nd ''address'')
      then (let (coords, s') =
                  geocode_address e s (py_str (get_or_empty nd ''address''))
                    (get_or_empty nd ''city'') (get_or_empty nd ''zipcode'')
            in (nd(''coordinates'' \<mapsto>
                  (case coords of None \<Rightarrow> NRaw PNone | Some (lat, lng) \<Rightarrow> NCoords lat lng)),
                s'))
      else (nd, s))"

definition required_defaults :: "(string \<times> ustring) list" where
  "required_defaults =
     [(''permit_id'', ustr ''UNKNOWN''), (''permit_type'', ustr ''UNKNOWN''),
      (''description'', []), (''address'', []), (''city'', []), (''zipcode'', [])]"

definition fill_defaults :: "normalized_data \<Rightarrow> normalized_data" where
  "fill_defaults nd =
     fold (\<lambda>(field, default) d.
             case d field of
               None \<Rightarrow> d(field \<mapsto> NRaw (PStr default))
             | Some v \<Rightarrow> if n_truthy v then d else d(field \<mapsto> NRaw (PStr default)))
       required_defaults nd"

definition field_or_none :: "normalized_data \<Rightarrow> string \<Rightarrow> nval" where
  "field_or_none nd key = (case nd key of Some v \<Rightarrow> v | None \<Rightarrow> NRaw PNone)"

definition make_permit :: "env \<Rightarrow> normalized_data \<Rightarrow> py_error + normalized_permit" where
  \<comment> \<open>\<open>NormalizedPermit(**normalized_data)\<close>: a missing field without a default raises
      \<open>TypeError\<close>; \<open>__post_init__\<close> stamps \<open>last_updated\<close>\<close>
  "make_permit e nd =
     (if list_all (\<lambda>key. nd key \<noteq> None)
           [''permit_id'', ''source_county'', ''permit_type'', ''description'', ''address'',
            ''city'', ''zipcode'']
      then Inr \<lparr>permit_id = field_or_none nd ''permit_id'',
                source_county = field_or_none nd ''source_county'',
                permit_type = field_or_none nd ''permit_type'',
                description = field_or_none nd ''description'',
                address = field_or_none nd ''address'',
                city = field_or_none nd ''city'',
                zipcode = field_or_none nd ''zipcode'',
                coordinates = field_or_none nd ''coordinates'',
                applicant_name = field_or_none nd ''applicant_name'',
                contractor_name = field_or_none nd ''contractor_name'',
                permit_value = field_or_none nd ''permit_value'',
                issue_date = field_or_none nd ''issue_date'',
                expiration_date = field_or_none nd ''expiration_date'',
                status = field_or_none nd ''status'',
                last_updated = NRaw (PStr (now_iso e))\<rparr>
      else Inl TypeError)"

definition county_of :: "raw_permit \<Rightarrow> pyval" where
  \<comment> \<open>\<open>raw_permit.get('source_county', 'unknown')\<close>\<close>
  "county_of raw = (case raw ''source_county'' of Some v \<Rightarrow> v | None \<Rightarrow> PStr (ustr ''unknown''))"

definition normalize_permit ::
  "env \<Rightarrow> processor \<Rightarrow> raw_permit \<Rightarrow> (py_error + normalized_permit) \<times> processor" where
  "normalize_permit e s raw =
     (let county = county_of raw
      in case field_mappings_get county of
           Inl err \<Rightarrow> (Inl err, s)
         | Inr mapping \<Rightarrow>
             (let nd1 = map_fields mapping raw [''source_county'' \<mapsto> NRaw county];
                  nd2 = join_descriptions county raw nd1;
                  nd3 = convert_permit_value nd2;
                  nd4 = clean_address_field nd3;
                  nd5 = nd4(''issue_date'' \<mapsto> NRaw (PStr (today e)));
                  (nd6, s') = geocode_step e s nd5
              in (make_permit e (fill_defaults nd6), s')))"

section \<open>Processing a batch\<close>

fun process_from ::
  "env \<Rightarrow> processor \<Rightarrow> normalized_permit list \<Rightarrow> raw_permit list \<Rightarrow>
   normalized_permit list \<times> processor" where
  "process_from e s normalized_permits [] = (normalized_permits, s)"
| "process_from e s normalized_permits (raw # raws) =
     (case normalize_permit e s raw of
        (Inr normalized, s') \<Rightarrow> process_from e s' (normalized_permits @ [normalized]) raws
      | (Inl err, s') \<Rightarrow> process_from e s' normalized_permits raws)"

definition process_permits ::
  "env \<Rightarrow> processor \<Rightarrow> raw_permit list \<Rightarrow> normalized_permit list \<times> processor" where
  "process_permits e s raw_permits = process_from e s [] raw_permits"

definition normalize_and_geocode_permits ::
  "env \<Rightarrow> ustring option \<Rightarrow> (ustring \<rightharpoonup> cache_val) \<Rightarrow> raw_permit list \<Rightarrow> bool \<Rightarrow>
   normalized_permit list \<times> processor" where
  "normalize_and_geocode_permits e api_key loaded raw_permits enable =
     (let (normalized_permits, s) = process_permits e (new_processor enable api_key loaded) raw_permits
      in (normalized_permits, if enable then save_geocoding_cache s else s))"

section \<open>Auxiliary notions for the proofs\<close>

fun sp_ok :: "bool \<Rightarrow> ustring \<Rightarrow> bool" where
  "sp_ok b [] = (\<not> b)"
| "sp_ok b (c # cs) = (if is_space c then \<not> b \<and> c = 32 \<and> sp_ok True cs else sp_ok False cs)"

definition tidy :: "ustring \<Rightarrow> bool" where
  "tidy s = (s = [] \<or> sp_ok True s)"

definition ascii_char :: "uchar \<Rightarrow> bool" where
  "ascii_char c = (0 \<le> c \<and> c < 128)"

function runs :: "ustring \<Rightarrow> ustring list" where
  "runs [] = []"
| "runs (c # cs) =
     (if is_word_char c then (c # takeWhile is_word_char cs) # runs (dropWhile is_word_char cs)
      else [c] # runs cs)"
  by pat_completeness auto
termination
  by (relation "measure length") (auto simp: less_Suc_eq_le length_dropWhile_le)

definition wordtok :: "ustring \<Rightarrow> bool" where
  "wordtok t = (t \<noteq> [] \<and> list_all is_word_char t)"

definition wordpat :: "ustring \<Rightarrow> bool" where
  "wordpat pat = (pat \<noteq> [] \<and> list_all (\<lambda>p. is_upper_letter p \<or> is_lower_letter p) pat)"

definition rep :: "bool \<Rightarrow> ustring \<Rightarrow> ustring \<Rightarrow> ustring \<Rightarrow> ustring" where
  "rep ic pat repl t = (if list_all2 (ch_match ic) pat t then repl else t)"

definition rep_all :: "bool \<Rightarrow> (ustring \<times> ustring) list \<Rightarrow> ustring \<Rightarrow> ustring" where
  "rep_all ic table t = fold (\<lambda>(full, abbrev) a. rep ic full abbrev a) table t"

fun toks :: "ustring list \<Rightarrow> bool" where
  "toks [] = True"
| "toks (t # ts) =
     (t \<noteq> [] \<and>
      (if is_word_char (hd t)
       then list_all is_word_char t \<and> (ts = [] \<or> \<not> is_word_char (hd (hd ts)))
       else length t = 1) \<and>
      toks ts)"

definition good_table :: "(ustring \<times> ustring) list \<Rightarrow> bool" where
  "good_table table = list_all (\<lambda>(k, r). wordpat k \<and> wordtok r \<and> is_ascii r) table"

definition closed_table :: "(ustring \<times> ustring) list \<Rightarrow> bool" where
  "closed_table table =
     list_all (\<lambda>(k, r). list_all (\<lambda>(k', r'). \<not> list_all2 (ch_match True) k' r) table) table"

definition same_letters :: "(ustring \<times> ustring) list \<Rightarrow> bool" where
  "same_letters table = list_all (\<lambda>(k, r). map char_lower r = map char_lower k) table"

definition up :: "uchar \<Rightarrow> uchar" where
  "up c = (if is_lower_letter c then c - 32 else c)"

definition abbreviate :: "ustring \<Rightarrow> ustring" where
  "abbreviate t = py_upper (rep_all True (directional_map @ street_types) t)"

definition mapped_value :: "raw_permit \<Rightarrow> string \<Rightarrow> nval option" where
  "mapped_value raw source_field =
     (case raw source_field of None \<Rightarrow> None | Some v \<Rightarrow> if v \<noteq> PNone then Some (NRaw v) else None)"

definition pre_data :: "env \<Rightarrow> raw_permit \<Rightarrow> (string \<times> string) list \<Rightarrow> normalized_data" where
  "pre_data e raw mapping =
     (clean_address_field (convert_permit_value (join_descriptions (county_of raw) raw
        (map_fields mapping raw [''source_county'' \<mapsto> NRaw (county_of raw)]))))
     (''issue_date'' \<mapsto> NRaw (PStr (today e)))"

definition permit_of :: "env \<Rightarrow> normalized_data \<Rightarrow> normalized_permit" where
  "permit_of e nd =
     \<lparr>permit_id = field_or_none nd ''permit_id'',
      source_county = field_or_none nd ''source_county'',
      permit_type = field_or_none nd ''permit_type'',
      description = field_or_none nd ''description'',
      address = field_or_none nd ''address'',
      city = field_or_none nd ''city'',
      zipcode = field_or_none nd ''zipcode'',
      coordinates = field_or_none nd ''coordinates'',
      applicant_name = field_or_none nd ''applicant_name'',
      contractor_name = field_or_none nd ''contractor_name'',
      permit_value = field_or_none nd ''permit_value'',
      issue_date = field_or_none nd ''issue_date'',
      expiration_date = field_or_none nd ''expiration_date'',
      status = field_or_none nd ''status'',
      last_updated = NRaw (PStr (now_iso e))\<rparr>"

definition default_filled :: "ustring \<Rightarrow> nval option \<Rightarrow> nval option" where
  "default_filled d x =
     (case x of None \<Rightarrow> Some (NRaw (PStr d))
      | Some v \<Rightarrow> if n_truthy v then Some v else Some (NRaw (PStr d)))"

definition default_step :: "string \<times> ustring \<Rightarrow> normalized_data \<Rightarrow> normalized_data" where
  "default_step = (\<lambda>(field, default) d.
           case d field of
             None \<Rightarrow> d(field \<mapsto> NRaw (PStr default))
           | Some v \<Rightarrow> if n_truthy v then d else d(field \<mapsto> NRaw (PStr default)))"

definition example_env :: env where
  "example_env =
     \<lparr>geocoder = (\<lambda>n a. RResult (2577 / 100) (- (8019 / 100))),
      today = ustr ''11/04/2026'', now_iso = ustr ''2026-11-04T10:00:00''\<rparr>"

definition example_processor :: processor where
  "example_processor = new_processor True (Some (ustr ''key'')) Map.empty"

definition miami_example :: raw_permit where
  "miami_example =
     [''source_county'' \<mapsto> PStr (ustr ''miami-dade''),
      ''FOLIO'' \<mapsto> PStr (ustr ''0131234567890''),
      ''PERMIT_TYPE'' \<mapsto> PStr (ustr ''Building''),
      ''DESC1'' \<mapsto> PStr (ustr ''Roof repair''),
      ''DESC3'' \<mapsto> PStr (ustr ''Reroof''),
      ''ADDRESS'' \<mapsto> PStr (ustr ''123 Main Street''),
      ''CITY'' \<mapsto> PStr (ustr ''Miami''),
      ''ZIP'' \<mapsto> PStr (ustr ''33101''),
      ''JOB_VAL'' \<mapsto> PStr (ustr ''$12,345.00''),
      ''ISSUDATE'' \<mapsto> PStr (ustr ''01/15/2020'')]"

definition broward_example :: raw_permit where
  "broward_example =
     [''source_county'' \<mapsto> PStr (ustr ''broward''), ''FOLIO'' \<mapsto> PStr (ustr ''77''),
      ''ADDRESS'' \<mapsto> PStr (ustr ''1 Las Olas Boulevard'')]"

section \<open>Lemmas\<close>

lemmas ch_defs = is_space_def is_upper_letter_def is_lower_letter_def is_digit_def
  is_special_lower_def is_cased_def is_word_char_def char_lower_def char_upper_def char_title_def

lemma is_space_32 [simp]: "is_space 32"
  by (simp add: is_space_def)

lemma lower_space_eq: "char_lower c = char_lower d \<Longrightarrow> is_space c = is_space d"
  by (auto simp: ch_defs split: if_splits)

lemma lower_space_id: "char_lower c = char_lower d \<Longrightarrow> is_space c \<Longrightarrow> c = d"
  by (auto simp: ch_defs split: if_splits)

lemma sp_ok_lower: "map char_lower s = map char_lower t \<Longrightarrow> sp_ok b s = sp_ok b t"
proof (induction s arbitrary: t b)
  case Nil
  then show ?case by simp
next
  case (Cons c cs)
  from Cons.prems obtain d ds where t: "t = d # ds" and cd: "char_lower c = char_lower d"
    and rest: "map char_lower cs = map char_lower ds"
    by (cases t) simp_all
  have ih: "sp_ok b' cs = sp_ok b' ds" for b'
    by (rule Cons.IH[OF rest])
  show ?case
  proof (cases "is_space c")
    case True
    have "c = d" by (rule lower_space_id[OF cd True])
    then show ?thesis unfolding t by (simp add: ih)
  next
    case False
    then have "\<not> is_space d" using lower_space_eq[OF cd] by blast
    with False show ?thesis unfolding t by (simp add: ih)
  qed
qed

lemma sp_ok_last: "sp_ok b s \<Longrightarrow> s \<noteq> [] \<Longrightarrow> \<not> is_space (last s)"
  by (induction s arbitrary: b) (auto split: if_splits)

lemma sp_ok_hd: "sp_ok True s \<Longrightarrow> s \<noteq> [] \<and> \<not> is_space (hd s)"
  by (cases s) (auto split: if_splits)

lemma sp_ok_collapse: "sp_ok b s \<Longrightarrow> re_collapse_ws s = s"
proof (induction s arbitrary: b)
  case Nil
  then show ?case by simp
next
  case (Cons c cs)
  show ?case
  proof (cases "is_space c")
    case True
    with Cons.prems have ok: "sp_ok True cs" by simp
    then have "dropWhile is_space cs = cs"
      using sp_ok_hd[OF ok] by (cases cs) auto
    with True Cons.prems Cons.IH[OF ok] show ?thesis by simp
  next
    case False
    with Cons.prems have "sp_ok False cs" by simp
    with False Cons.IH show ?thesis by simp
  qed
qed

lemma sp_ok_strip: assumes "sp_ok True s" shows "py_strip s = s"
proof -
  from sp_ok_hd[OF assms] have ne: "s \<noteq> []" and h: "\<not> is_space (hd s)" by auto
  then have a: "dropWhile is_space s = s" by (cases s) auto
  from sp_ok_last[OF assms ne] have "\<not> is_space (hd (rev s))"
    using ne by (simp add: hd_rev)
  then have "dropWhile is_space (rev s) = rev s"
    using ne by (cases "rev s") auto
  with a show ?thesis by (simp add: py_strip_def)
qed

lemma tidy_fix: "tidy s \<Longrightarrow> re_collapse_ws (py_strip s) = s"
  unfolding tidy_def
proof (elim disjE)
  assume "s = []" then show ?thesis by (simp add: py_strip_def)
next
  assume "sp_ok True s"
  then show ?thesis by (simp add: sp_ok_strip sp_ok_collapse)
qed

lemma dropWhile_last: "xs \<noteq> [] \<Longrightarrow> \<not> P (last xs) \<Longrightarrow> dropWhile P xs \<noteq> [] \<and> last (dropWhile P xs) = last xs"
  by (induction xs) (auto split: if_splits)

lemma collapse_sp_ok:
  "(b \<longrightarrow> t \<noteq> [] \<and> \<not> is_space (hd t)) \<Longrightarrow> (t \<noteq> [] \<longrightarrow> \<not> is_space (last t)) \<Longrightarrow>
   (\<not> b \<or> t \<noteq> []) \<Longrightarrow> sp_ok b (re_collapse_ws t)"
proof (induction t arbitrary: b rule: re_collapse_ws.induct)
  case 1
  then show ?case by simp
next
  case (2 c cs)
  show ?case
  proof (cases "is_space c")
    case True
    with "2.prems" have nb: "\<not> b" by auto
    from True "2.prems"(2) have cs: "cs \<noteq> []" "\<not> is_space (last cs)"
      by (auto split: if_splits)
    from dropWhile_last[of cs is_space] cs have d: "dropWhile is_space cs \<noteq> []"
      "last (dropWhile is_space cs) = last cs" by auto
    have "\<not> is_space (hd (dropWhile is_space cs))"
      using d(1) hd_dropWhile by blast
    with d cs have "sp_ok True (re_collapse_ws (dropWhile is_space cs))"
      by (intro "2.IH"(1)[OF True]) auto
    with True nb show ?thesis by simp
  next
    case False
    from "2.prems"(2) have "cs \<noteq> [] \<longrightarrow> \<not> is_space (last cs)" by auto
    then have "sp_ok False (re_collapse_ws cs)"
      by (intro "2.IH"(2)[OF False]) auto
    with False show ?thesis by simp
  qed
qed

lemma strip_ends: "py_strip s = [] \<or> (\<not> is_space (hd (py_strip s)) \<and> \<not> is_space (last (py_strip s)))"
proof -
  define u where "u = dropWhile is_space s"
  define v where "v = dropWhile is_space (rev u)"
  have t: "py_strip s = rev v" by (simp add: py_strip_def u_def v_def)
  show ?thesis
  proof (cases "v = []")
    case True then show ?thesis by (simp add: t)
  next
    case False
    then have hv: "\<not> is_space (hd v)" unfolding v_def using hd_dropWhile by blast
    have "rev u = takeWhile is_space (rev u) @ v" by (simp add: v_def)
    then have "rev (rev u) = rev (takeWhile is_space (rev u) @ v)" by simp
    then have "u = rev v @ rev (takeWhile is_space (rev u))"
      by (simp only: rev_append rev_rev_ident)
    then have "hd u = hd (rev v @ rev (takeWhile is_space (rev u)))" by simp
    then have "hd u = hd (rev v)" using False by simp
    moreover have "u \<noteq> []" using False v_def by auto
    then have "\<not> is_space (hd u)" unfolding u_def using hd_dropWhile by blast
    ultimately show ?thesis using hv False by (simp add: t last_rev)
  qed
qed

lemma tidy_collapse_strip: "tidy (re_collapse_ws (py_strip s))"
proof (cases "py_strip s = []")
  case True then show ?thesis by (simp add: tidy_def)
next
  case False
  with strip_ends[of s] have "sp_ok True (re_collapse_ws (py_strip s))"
    by (intro collapse_sp_ok) auto
  then show ?thesis by (simp add: tidy_def)
qed

lemma is_ascii_Nil [simp]: "is_ascii []"
  by (simp add: is_ascii_def)

lemma is_ascii_Cons [simp]: "is_ascii (c # cs) = (ascii_char c \<and> is_ascii cs)"
  by (simp add: is_ascii_def ascii_char_def)

lemma is_ascii_append [simp]: "is_ascii (s @ t) = (is_ascii s \<and> is_ascii t)"
  by (simp add: is_ascii_def)

lemma is_ascii_set: "is_ascii s = (\<forall>c\<in>set s. ascii_char c)"
  by (simp add: is_ascii_def ascii_char_def list_all_iff)

lemma is_ascii_rev [simp]: "is_ascii (rev s) = is_ascii s"
  by (simp add: is_ascii_set)

lemma is_ascii_dropWhile: "is_ascii s \<Longrightarrow> is_ascii (dropWhile P s)"
  by (auto simp: is_ascii_set dest: set_dropWhileD)

lemma is_ascii_drop: "is_ascii s \<Longrightarrow> is_ascii (drop n s)"
  by (auto simp: is_ascii_set dest: in_set_dropD)

lemma is_ascii_strip: "is_ascii s \<Longrightarrow> is_ascii (py_strip s)"
  by (simp add: py_strip_def is_ascii_dropWhile)

lemma ascii_char_32 [simp]: "ascii_char 32"
  by (simp add: ascii_char_def)

lemma is_ascii_collapse: "is_ascii s \<Longrightarrow> is_ascii (re_collapse_ws s)"
  by (induction s rule: re_collapse_ws.induct) (simp_all add: is_ascii_dropWhile)

lemma ascii_title: "ascii_char c \<Longrightarrow> char_title c = [if is_lower_letter c then c - 32 else c]"
  by (simp add: char_title_def ascii_char_def)

lemma ascii_upper: "ascii_char c \<Longrightarrow> char_upper c = [if is_lower_letter c then c - 32 else c]"
  by (simp add: char_upper_def ascii_char_def)

lemma ascii_char_lower: "ascii_char c \<Longrightarrow> ascii_char (char_lower c)"
  by (simp add: ascii_char_def char_lower_def is_upper_letter_def)

lemma ascii_char_up: "ascii_char c \<Longrightarrow> ascii_char (if is_lower_letter c then c - 32 else c)"
  by (simp add: ascii_char_def is_lower_letter_def)

lemma lower_lower [simp]: "char_lower (char_lower c) = char_lower c"
  by (simp add: char_lower_def is_upper_letter_def)

lemma lower_up: "char_lower (if is_lower_letter c then c - 32 else c) = char_lower c"
  by (simp add: char_lower_def is_upper_letter_def is_lower_letter_def)

lemma is_ascii_title: "is_ascii s \<Longrightarrow> is_ascii (title_from p s)"
  by (induction s arbitrary: p) (simp_all add: ascii_title ascii_char_lower ascii_char_up)

lemma title_lower: "is_ascii s \<Longrightarrow> map char_lower (title_from p s) = map char_lower s"
  by (induction s arbitrary: p) (simp_all add: ascii_title lower_up)

lemma lower_cased: "char_lower c = char_lower d \<Longrightarrow> ascii_char c \<Longrightarrow> ascii_char d \<Longrightarrow> is_cased c = is_cased d"
  by (auto simp: ch_defs ascii_char_def split: if_splits)

lemma lower_title: "char_lower c = char_lower d \<Longrightarrow> ascii_char c \<Longrightarrow> ascii_char d \<Longrightarrow> char_title c = char_title d"
  by (auto simp: ch_defs ascii_char_def split: if_splits)

lemma title_cong:
  "map char_lower s = map char_lower t \<Longrightarrow> is_ascii s \<Longrightarrow> is_ascii t \<Longrightarrow> title_from p s = title_from p t"
proof (induction s arbitrary: t p)
  case Nil
  then show ?case by simp
next
  case (Cons c cs)
  from Cons.prems(1) obtain d ds where t: "t = d # ds" and cd: "char_lower c = char_lower d"
    and rest: "map char_lower cs = map char_lower ds"
    by (cases t) simp_all
  from Cons.prems(2,3) have a: "ascii_char c" "ascii_char d" "is_ascii cs" "is_ascii ds"
    unfolding t by simp_all
  have ih: "title_from p' cs = title_from p' ds" for p'
    by (rule Cons.IH[OF rest a(3) a(4)])
  have "is_cased c = is_cased d" by (rule lower_cased[OF cd a(1) a(2)])
  moreover have "char_title c = char_title d" by (rule lower_title[OF cd a(1) a(2)])
  ultimately show ?case unfolding t by (simp add: ih cd)
qed

lemma runs_word:
  "is_word_char c \<Longrightarrow>
   runs (c # cs) = (c # takeWhile is_word_char cs) # runs (dropWhile is_word_char cs)"
  by simp

lemma runs_nonword: "\<not> is_word_char c \<Longrightarrow> runs (c # cs) = [c] # runs cs"
  by simp

declare runs.simps(2) [simp del]

lemma rep_match: "list_all2 (ch_match ic) pat t \<Longrightarrow> rep ic pat repl t = repl"
  by (simp add: rep_def)

lemma rep_nomatch: "\<not> list_all2 (ch_match ic) pat t \<Longrightarrow> rep ic pat repl t = t"
  by (simp add: rep_def)

lemma match_letter:
  "is_upper_letter p \<or> is_lower_letter p \<Longrightarrow> ch_match ic p c \<Longrightarrow> is_word_char c"
  by (auto simp: ch_defs ch_match_def split: if_splits)

lemma match_all_word:
  "list_all2 (ch_match ic) pat t \<Longrightarrow> list_all (\<lambda>p. is_upper_letter p \<or> is_lower_letter p) pat \<Longrightarrow>
   list_all is_word_char t"
  by (induction pat t rule: list_all2_induct) (auto intro: match_letter)

lemma match_wordtok: "wordpat pat \<Longrightarrow> list_all2 (ch_match ic) pat t \<Longrightarrow> wordtok t"
  unfolding wordpat_def wordtok_def
  using match_all_word list_all2_lengthD by fastforce

lemma span_app:
  "list_all P a \<Longrightarrow> r = [] \<or> \<not> P (hd r) \<Longrightarrow> takeWhile P (a @ r) = a \<and> dropWhile P (a @ r) = r"
proof (induction a)
  case Nil
  then show ?case by (cases r) auto
next
  case (Cons x a)
  then show ?case by simp
qed

lemma sub_from_match:
  "word_at ic pat prev (c # cs) \<Longrightarrow>
   re_sub_from ic pat repl prev (c # cs) =
     repl @ re_sub_from ic pat repl (is_word_char (last (c # take (length pat - 1) cs)))
              (drop (length pat - 1) cs)"
  by simp

lemma sub_from_nomatch:
  "\<not> word_at ic pat prev (c # cs) \<Longrightarrow>
   re_sub_from ic pat repl prev (c # cs) = c # re_sub_from ic pat repl (is_word_char c) cs"
  by simp

declare re_sub_from.simps(2) [simp del]

lemma sub_from_True_word:
  "is_word_char c \<Longrightarrow> re_sub_from ic pat repl True (c # cs) = c # re_sub_from ic pat repl True cs"
  by (simp add: sub_from_nomatch word_at_def at_boundary_def)

lemma sub_from_takeWhile:
  "re_sub_from ic pat repl True s =
     takeWhile is_word_char s @ re_sub_from ic pat repl True (dropWhile is_word_char s)"
  by (induction s) (simp_all add: sub_from_True_word)

lemma word_at_nonword:
  assumes "wordpat pat" "\<not> is_word_char c"
  shows "\<not> word_at ic pat prev (c # cs)"
proof
  assume w: "word_at ic pat prev (c # cs)"
  from assms(1) obtain p ps where pat: "pat = p # ps" and p: "is_upper_letter p \<or> is_lower_letter p"
    by (cases pat) (auto simp: wordpat_def)
  from w have "list_all2 (ch_match ic) pat (take (length pat) (c # cs))"
    by (simp add: word_at_def)
  then have "ch_match ic p c" by (simp add: pat)
  from match_letter[OF p this] assms(2) show False by simp
qed

lemma sub_from_nonword:
  "wordpat pat \<Longrightarrow> \<not> is_word_char c \<Longrightarrow>
   re_sub_from ic pat repl prev (c # cs) = c # re_sub_from ic pat repl False cs"
  by (simp add: sub_from_nomatch word_at_nonword)

lemma sub_from_prev:
  "wordpat pat \<Longrightarrow> s = [] \<or> \<not> is_word_char (hd s) \<Longrightarrow>
   re_sub_from ic pat repl prev s = re_sub_from ic pat repl False s"
  by (cases s) (simp_all add: sub_from_nonword)

lemma word_at_run:
  assumes pat: "wordpat pat" and c: "is_word_char c"
  shows "word_at ic pat False (c # cs) = list_all2 (ch_match ic) pat (c # takeWhile is_word_char cs)"
proof -
  define w where "w = c # takeWhile is_word_char cs"
  define rest where "rest = dropWhile is_word_char cs"
  have s: "c # cs = w @ rest" by (simp add: w_def rest_def)
  have rest: "rest = [] \<or> \<not> is_word_char (hd rest)"
    unfolding rest_def using hd_dropWhile by blast
  have wall: "list_all is_word_char w"
    unfolding w_def using c by (auto simp: list_all_iff dest: set_takeWhileD)
  have wne: "w \<noteq> []" by (simp add: w_def)
  show ?thesis
  proof
    assume m: "list_all2 (ch_match ic) pat (c # takeWhile is_word_char cs)"
    then have m': "list_all2 (ch_match ic) pat w" by (simp add: w_def)
    then have len: "length pat = length w" by (rule list_all2_lengthD)
    have tk: "take (length pat) (c # cs) = w" and dr: "drop (length pat) (c # cs) = rest"
      unfolding s len by simp_all
    have lw: "is_word_char (last w)"
      using wall wne by (simp add: list_all_iff)
    have b2: "at_boundary True rest"
      using rest by (cases rest) (simp_all add: at_boundary_def)
    have b1: "at_boundary False (c # cs)" using c by (simp add: at_boundary_def)
    have "pat \<noteq> []" using pat by (simp add: wordpat_def)
    moreover have "length pat \<le> length (c # cs)" unfolding s len by simp
    ultimately show "word_at ic pat False (c # cs)"
      unfolding word_at_def tk dr using m' lw b1 b2 by simp
  next
    assume wa: "word_at ic pat False (c # cs)"
    define n where "n = length pat"
    define tk where "tk = take n (c # cs)"
    define dr where "dr = drop n (c # cs)"
    from wa have m: "list_all2 (ch_match ic) pat tk"
      and b: "at_boundary (is_word_char (last tk)) dr"
      by (simp_all add: word_at_def tk_def dr_def n_def)
    from match_wordtok[OF pat m] have tkw: "tk \<noteq> []" "list_all is_word_char tk"
      by (simp_all add: wordtok_def)
    then have "is_word_char (last tk)" by (simp add: list_all_iff)
    with b have dr: "dr = [] \<or> \<not> is_word_char (hd dr)"
      by (cases dr) (simp_all add: at_boundary_def)
    have "c # cs = tk @ dr" by (simp add: tk_def dr_def)
    then have "takeWhile is_word_char (c # cs) = tk"
      using span_app[OF tkw(2) dr] by simp
    then have "tk = c # takeWhile is_word_char cs" using c by simp
    with m show "list_all2 (ch_match ic) pat (c # takeWhile is_word_char cs)" by simp
  qed
qed

lemma sub_from_runs:
  assumes pat: "wordpat pat"
  shows "re_sub_from ic pat repl False s = concat (map (rep ic pat repl) (runs s))"
proof (induction s rule: runs.induct)
  case 1
  then show ?case by simp
next
  case (2 c cs)
  show ?case
  proof (cases "is_word_char c")
    case False
    have "\<not> list_all2 (ch_match ic) pat [c]"
    proof
      assume "list_all2 (ch_match ic) pat [c]"
      from match_wordtok[OF pat this] False show False by (simp add: wordtok_def)
    qed
    then have "rep ic pat repl [c] = [c]" by (rule rep_nomatch)
    with "2.IH"(2)[OF False] False show ?thesis
      by (simp add: sub_from_nonword[OF pat False] runs_nonword)
  next
    case True
    define w where "w = c # takeWhile is_word_char cs"
    define rest where "rest = dropWhile is_word_char cs"
    have rest: "rest = [] \<or> \<not> is_word_char (hd rest)"
      unfolding rest_def using hd_dropWhile by blast
    have ih: "re_sub_from ic pat repl False rest = concat (map (rep ic pat repl) (runs rest))"
      unfolding rest_def by (rule "2.IH"(1)[OF True])
    have rn: "runs (c # cs) = w # runs rest"
      using True by (simp add: w_def rest_def runs_word)
    show ?thesis
    proof (cases "list_all2 (ch_match ic) pat w")
      case m: True
      then have wa: "word_at ic pat False (c # cs)"
        using word_at_run[OF pat True] by (simp add: w_def)
      from m have len: "length pat = length w" by (rule list_all2_lengthD)
      then have "length pat - 1 = length (takeWhile is_word_char cs)" by (simp add: w_def)
      then have dr: "drop (length pat - 1) cs = rest"
        by (simp add: rest_def dropWhile_eq_drop)
      have "re_sub_from ic pat repl False (c # cs) =
            repl @ re_sub_from ic pat repl (is_word_char (last (c # take (length pat - 1) cs))) rest"
        using sub_from_match[OF wa] dr by simp
      also have "\<dots> = repl @ re_sub_from ic pat repl False rest"
        using sub_from_prev[OF pat rest] by simp
      finally show ?thesis using rep_match[OF m] by (simp add: rn ih)
    next
      case nm: False
      then have wa: "\<not> word_at ic pat False (c # cs)"
        using word_at_run[OF pat True] by (simp add: w_def)
      have "re_sub_from ic pat repl False (c # cs) = c # re_sub_from ic pat repl True cs"
        using sub_from_nomatch[OF wa] True by simp
      also have "\<dots> = w @ re_sub_from ic pat repl True rest"
        using sub_from_takeWhile[of ic pat repl cs] by (simp add: w_def rest_def)
      also have "\<dots> = w @ re_sub_from ic pat repl False rest"
        using sub_from_prev[OF pat rest] by simp
      finally show ?thesis using rep_nomatch[OF nm] by (simp add: rn ih)
    qed
  qed
qed

lemma tables_good: "good_table (directional_map @ street_types)"
  by code_simp

lemma tables_closed: "closed_table (directional_map @ street_types)"
  by code_simp

lemma cache_good: "good_table cache_abbreviations"
  by code_simp

lemma cache_same: "same_letters cache_abbreviations"
  by code_simp

lemma runs_concat: "concat (runs s) = s"
  by (induction s rule: runs.induct) (simp_all add: runs.simps(2))

lemma runs_Nil_iff: "(runs s = []) = (s = [])"
  by (cases s) (simp_all add: runs.simps(2))

lemma hd_hd_runs: "s \<noteq> [] \<Longrightarrow> hd (hd (runs s)) = hd s"
  by (cases s) (simp_all add: runs.simps(2))

lemma toks_runs: "toks (runs s)"
proof (induction s rule: runs.induct)
  case 1
  then show ?case by simp
next
  case (2 c cs)
  show ?case
  proof (cases "is_word_char c")
    case True
    define rest where "rest = dropWhile is_word_char cs"
    have rest: "rest = [] \<or> \<not> is_word_char (hd rest)"
      unfolding rest_def using hd_dropWhile by blast
    then have nxt: "runs rest = [] \<or> \<not> is_word_char (hd (hd (runs rest)))"
      using hd_hd_runs[of rest] by (auto simp: runs_Nil_iff)
    have "list_all is_word_char (takeWhile is_word_char cs)"
      by (auto simp: list_all_iff dest: set_takeWhileD)
    with True nxt "2.IH"(1)[OF True] show ?thesis
      by (simp add: runs_word rest_def)
  next
    case False
    with "2.IH"(2)[OF False] show ?thesis by (simp add: runs_nonword)
  qed
qed

lemma toks_runs_concat: "toks ts \<Longrightarrow> runs (concat ts) = ts"
proof (induction ts)
  case Nil
  then show ?case by simp
next
  case (Cons t ts)
  from Cons.prems have tk: "toks ts" and ne: "t \<noteq> []" by simp_all
  have ih: "runs (concat ts) = ts" by (rule Cons.IH[OF tk])
  obtain c t' where t: "t = c # t'" using ne by (cases t) auto
  show ?case
  proof (cases "is_word_char c")
    case False
    with Cons.prems have "t' = []" by (simp add: t)
    with False ih show ?thesis by (simp add: t runs_nonword)
  next
    case True
    with Cons.prems have all: "list_all is_word_char t'"
      and nxt: "ts = [] \<or> \<not> is_word_char (hd (hd ts))" by (simp_all add: t)
    have r: "concat ts = [] \<or> \<not> is_word_char (hd (concat ts))"
    proof (cases ts)
      case Nil
      then show ?thesis by simp
    next
      case (Cons u us)
      with tk have "u \<noteq> []" by simp
      with Cons nxt show ?thesis by simp
    qed
    from span_app[OF all r] True ih show ?thesis
      by (simp add: t runs_word)
  qed
qed

lemma toks_shape:
  "toks ts \<Longrightarrow> t \<in> set ts \<Longrightarrow> wordtok t \<or> (\<exists>c. t = [c] \<and> \<not> is_word_char c)"
proof (induction ts)
  case Nil
  then show ?case by simp
next
  case (Cons u us)
  show ?case
  proof (cases "t = u")
    case True
    from Cons.prems(1) have ne: "u \<noteq> []" by simp
    then obtain c u' where u: "u = c # u'" by (cases u) auto
    show ?thesis
    proof (cases "is_word_char c")
      case w: True
      with Cons.prems(1) show ?thesis by (simp add: True u wordtok_def)
    next
      case nw: False
      with Cons.prems(1) show ?thesis by (simp add: True u)
    qed
  next
    case False
    with Cons show ?thesis by simp
  qed
qed

lemma wordtok_hd: "wordtok t \<Longrightarrow> is_word_char (hd t)"
  by (cases t) (simp_all add: wordtok_def)

lemma toks_map:
  assumes "toks ts" and "\<And>t. t \<in> set ts \<Longrightarrow> f t = t \<or> (wordtok t \<and> wordtok (f t))"
  shows "toks (map f ts)"
  using assms
proof (induction ts)
  case Nil
  then show ?case by simp
next
  case (Cons t ts)
  from Cons.prems(1) have tk: "toks ts" by simp
  have ih: "toks (map f ts)"
    by (rule Cons.IH[OF tk]) (simp add: Cons.prems(2))
  have nxt: "map f ts = [] \<or> \<not> is_word_char (hd (hd (map f ts)))"
    if "ts = [] \<or> \<not> is_word_char (hd (hd ts))"
  proof (cases ts)
    case Nil
    then show ?thesis by simp
  next
    case (Cons u us)
    with that have nu: "\<not> is_word_char (hd u)" by simp
    then have "\<not> wordtok u" using wordtok_hd by blast
    moreover have "f u = u \<or> (wordtok u \<and> wordtok (f u))"
      by (rule Cons.prems(2)) (simp add: Cons)
    ultimately have "f u = u" by blast
    with nu Cons show ?thesis by simp
  qed
  have ft: "f t = t \<or> (wordtok t \<and> wordtok (f t))"
    by (rule Cons.prems(2)) simp
  then show ?case
  proof
    assume "f t = t"
    with Cons.prems(1) ih nxt show ?thesis by (auto split: if_splits)
  next
    assume w: "wordtok t \<and> wordtok (f t)"
    then have "is_word_char (hd t)" "is_word_char (hd (f t))" "f t \<noteq> []" "list_all is_word_char (f t)"
      using wordtok_hd by (auto simp: wordtok_def)
    with Cons.prems(1) ih nxt show ?thesis by simp
  qed
qed

lemma good_tableD:
  "good_table table \<Longrightarrow> (k, r) \<in> set table \<Longrightarrow> wordpat k \<and> wordtok r \<and> is_ascii r"
  by (auto simp: good_table_def list_all_iff)

lemma good_table_Cons:
  "good_table ((k, r) # table) = (wordpat k \<and> wordtok r \<and> is_ascii r \<and> good_table table)"
  by (simp add: good_table_def)

lemma rep_all_Nil [simp]: "rep_all ic [] t = t"
  by (simp add: rep_all_def)

lemma rep_all_Cons [simp]: "rep_all ic ((k, r) # table) t = rep_all ic table (rep ic k r t)"
  by (simp add: rep_all_def)

lemma sub_all_Nil [simp]: "sub_all ic [] s = s"
  by (simp add: sub_all_def)

lemma sub_all_Cons [simp]: "sub_all ic ((k, r) # table) s = sub_all ic table (re_sub_word ic k r s)"
  by (simp add: sub_all_def)

lemma sub_all_append: "sub_all ic (t1 @ t2) s = sub_all ic t2 (sub_all ic t1 s)"
  by (simp add: sub_all_def)

lemma rep_shape:
  "wordpat k \<Longrightarrow> wordtok r \<Longrightarrow> rep ic k r t = t \<or> (wordtok t \<and> wordtok (rep ic k r t))"
  by (cases "list_all2 (ch_match ic) k t") (simp_all add: rep_match rep_nomatch match_wordtok)

lemma rep_all_shape:
  "good_table table \<Longrightarrow> rep_all ic table t = t \<or> (wordtok t \<and> wordtok (rep_all ic table t))"
proof (induction table arbitrary: t)
  case Nil
  then show ?case by simp
next
  case (Cons kr table)
  obtain k r where kr: "kr = (k, r)" by (cases kr)
  from Cons.prems have g: "wordpat k" "wordtok r" "good_table table"
    by (simp_all add: kr good_table_Cons)
  from rep_shape[OF g(1) g(2), of ic t] Cons.IH[OF g(3), of "rep ic k r t"]
  show ?case by (auto simp: kr)
qed

lemma rep_all_range:
  "rep_all ic table t = t \<or> rep_all ic table t \<in> snd ` set table"
proof (induction table arbitrary: t)
  case Nil
  then show ?case by simp
next
  case (Cons kr table)
  obtain k r where kr: "kr = (k, r)" by (cases kr)
  have "rep ic k r t = t \<or> rep ic k r t = r" by (simp add: rep_def)
  with Cons.IH[of "rep ic k r t"] show ?case by (auto simp: kr)
qed

lemma sub_word_toks:
  assumes "wordpat k" "toks ts"
  shows "re_sub_word ic k r (concat ts) = concat (map (rep ic k r) ts)"
  by (simp add: re_sub_word_def sub_from_runs[OF assms(1)] toks_runs_concat[OF assms(2)])

lemma sub_all_toks:
  "good_table table \<Longrightarrow> toks ts \<Longrightarrow>
   sub_all ic table (concat ts) = concat (map (rep_all ic table) ts)"
proof (induction table arbitrary: ts)
  case Nil
  then show ?case by simp
next
  case (Cons kr table)
  obtain k r where kr: "kr = (k, r)" by (cases kr)
  from Cons.prems(1) have g: "wordpat k" "wordtok r" "good_table table"
    by (simp_all add: kr good_table_Cons)
  have tk: "toks (map (rep ic k r) ts)"
    by (rule toks_map[OF Cons.prems(2)]) (rule rep_shape[OF g(1) g(2)])
  show ?case
    by (simp add: kr sub_word_toks[OF g(1) Cons.prems(2)] Cons.IH[OF g(3) tk] comp_def)
qed

lemma sub_all_runs:
  "good_table table \<Longrightarrow> sub_all ic table s = concat (map (rep_all ic table) (runs s))"
proof -
  assume g: "good_table table"
  have "sub_all ic table (concat (runs s)) = concat (map (rep_all ic table) (runs s))"
    by (rule sub_all_toks[OF g toks_runs])
  then show ?thesis by (simp add: runs_concat)
qed

text \<open>no key matches the result of the replacements\<close>

lemma closed_tableD:
  "closed_table table \<Longrightarrow> (k, r) \<in> set table \<Longrightarrow> (k', r') \<in> set table \<Longrightarrow>
   \<not> list_all2 (ch_match True) k' r"
  by (fastforce simp: closed_table_def list_all_iff)

lemma rep_all_keeps_nomatch:
  "\<not> list_all2 (ch_match True) k t \<Longrightarrow>
   (\<And>k' r'. (k', r') \<in> set table \<Longrightarrow> \<not> list_all2 (ch_match True) k r') \<Longrightarrow>
   \<not> list_all2 (ch_match True) k (rep_all True table t)"
proof (induction table arbitrary: t)
  case Nil
  then show ?case by simp
next
  case (Cons kr table)
  obtain k1 r1 where kr: "kr = (k1, r1)" by (cases kr)
  have r1: "\<not> list_all2 (ch_match True) k r1"
    by (rule Cons.prems(2)[of k1 r1]) (simp add: kr)
  have "rep True k1 r1 t = t \<or> rep True k1 r1 t = r1" by (simp add: rep_def)
  with Cons.prems(1) r1 have "\<not> list_all2 (ch_match True) k (rep True k1 r1 t)" by auto
  then have "\<not> list_all2 (ch_match True) k (rep_all True table (rep True k1 r1 t))"
  proof (rule Cons.IH)
    fix k' r' assume "(k', r') \<in> set table"
    then show "\<not> list_all2 (ch_match True) k r'"
      using Cons.prems(2)[of k' r'] by simp
  qed
  then show ?case by (simp add: kr)
qed

lemma rep_all_no_key:
  "(\<And>k r k' r'. (k, r) \<in> set table \<Longrightarrow> (k', r') \<in> set all \<Longrightarrow> \<not> list_all2 (ch_match True) k r') \<Longrightarrow>
   set table \<subseteq> set all \<Longrightarrow> (k, r) \<in> set table \<Longrightarrow>
   \<not> list_all2 (ch_match True) k (rep_all True table t)"
proof (induction table arbitrary: t)
  case Nil
  then show ?case by simp
next
  case (Cons kr table)
  obtain k1 r1 where kr: "kr = (k1, r1)" by (cases kr)
  show ?case
  proof (cases "(k, r) \<in> set table")
    case True
    have "\<not> list_all2 (ch_match True) k (rep_all True table (rep True k1 r1 t))"
    proof (rule Cons.IH[OF _ _ True])
      show "\<not> list_all2 (ch_match True) k r'" if "(k, r) \<in> set table" "(k', r') \<in> set all"
        for k r k' r' using Cons.prems(1)[of k r k' r'] that by simp
      show "set table \<subseteq> set all" using Cons.prems(2) by simp
    qed
    then show ?thesis by (simp add: kr)
  next
    case False
    with Cons.prems(3) have k: "k1 = k" "r1 = r" by (simp_all add: kr)
    have pr: "\<not> list_all2 (ch_match True) k r'" if "(k', r') \<in> set all" for k' r'
      using Cons.prems(1)[of k r k' r'] that by (simp add: kr k)
    have "(k1, r1) \<in> set all" using Cons.prems(2) by (simp add: kr)
    then have "\<not> list_all2 (ch_match True) k r1" using pr by blast
    then have "\<not> list_all2 (ch_match True) k (rep True k1 r1 t)"
      by (simp add: rep_def k)
    then have "\<not> list_all2 (ch_match True) k (rep_all True table (rep True k1 r1 t))"
    proof (rule rep_all_keeps_nomatch)
      show "\<not> list_all2 (ch_match True) k r'" if "(k', r') \<in> set table" for k' r'
        using pr[of k' r'] that Cons.prems(2) by auto
    qed
    then show ?thesis by (simp add: kr)
  qed
qed

lemma rep_all_id:
  "(\<And>k r. (k, r) \<in> set table \<Longrightarrow> \<not> list_all2 (ch_match True) k t) \<Longrightarrow> rep_all True table t = t"
proof (induction table)
  case Nil
  then show ?case by simp
next
  case (Cons kr table)
  obtain k r where kr: "kr = (k, r)" by (cases kr)
  have "\<not> list_all2 (ch_match True) k t" using Cons.prems[of k r] by (simp add: kr)
  then have "rep True k r t = t" by (rule rep_nomatch)
  moreover have "rep_all True table t = t"
  proof (rule Cons.IH)
    fix k' r' assume "(k', r') \<in> set table"
    then show "\<not> list_all2 (ch_match True) k' t" using Cons.prems[of k' r'] by simp
  qed
  ultimately show ?case by (simp add: kr)
qed

lemma upper_ascii: "is_ascii s \<Longrightarrow> py_upper s = map up s"
  by (induction s) (simp_all add: py_upper_def ascii_upper up_def)

lemma up_up [simp]: "up (up c) = up c"
  by (simp add: up_def is_lower_letter_def)

lemma lower_up' [simp]: "char_lower (up c) = char_lower c"
  by (simp add: up_def lower_up)

lemma ascii_up: "ascii_char c \<Longrightarrow> ascii_char (up c)"
  by (simp add: up_def ascii_char_up)

lemma word_up: "ascii_char c \<Longrightarrow> is_word_char (up c) = is_word_char c"
  by (auto simp: up_def ascii_char_def ch_defs)

lemma nonword_up: "\<not> is_word_char c \<Longrightarrow> up c = c"
  by (auto simp: up_def ch_defs)

lemma is_ascii_map_up: "is_ascii s \<Longrightarrow> is_ascii (map up s)"
  by (induction s) (simp_all add: ascii_up)

lemma is_ascii_upper: "is_ascii s \<Longrightarrow> is_ascii (py_upper s)"
  by (simp add: upper_ascii is_ascii_map_up)

lemma upper_idem: "is_ascii s \<Longrightarrow> py_upper (py_upper s) = py_upper s"
  by (simp add: upper_ascii is_ascii_map_up)

lemma upper_concat: "py_upper (concat ts) = concat (map py_upper ts)"
  by (induction ts) (simp_all add: py_upper_def)

lemma match_upper:
  "is_ascii t \<Longrightarrow> list_all2 (ch_match True) k (py_upper t) = list_all2 (ch_match True) k t"
proof -
  have m: "ch_match True p (up c) = ch_match True p c" for p c
    by (simp add: ch_match_def)
  assume "is_ascii t"
  then show ?thesis by (simp add: upper_ascii list_all2_map2 m)
qed

lemma wordtok_upper: "is_ascii t \<Longrightarrow> wordtok t \<Longrightarrow> wordtok (py_upper t)"
  by (auto simp: upper_ascii wordtok_def list_all_iff is_ascii_set word_up)

lemma is_ascii_concat: "is_ascii (concat ts) = (\<forall>t\<in>set ts. is_ascii t)"
  by (auto simp: is_ascii_set)

lemma is_ascii_runs: "is_ascii s \<Longrightarrow> t \<in> set (runs s) \<Longrightarrow> is_ascii t"
  using is_ascii_concat[of "runs s"] by (simp add: runs_concat)

lemma rep_all_ascii:
  assumes "good_table table" "is_ascii t"
  shows "is_ascii (rep_all ic table t)"
proof -
  from rep_all_range[of ic table t] show ?thesis
  proof
    assume "rep_all ic table t = t" with assms(2) show ?thesis by simp
  next
    assume "rep_all ic table t \<in> snd ` set table"
    then obtain k where "(k, rep_all ic table t) \<in> set table" by auto
    from good_tableD[OF assms(1) this] show ?thesis by simp
  qed
qed

text \<open>whitespace structure is untouched by a map on the word tokens\<close>

lemma wordtok_no_space: "is_word_char c \<Longrightarrow> \<not> is_space c"
  by (auto simp: ch_defs)

lemma sp_ok_word:
  "wordtok t \<Longrightarrow> sp_ok b (t @ r) = sp_ok False r"
proof (induction t arbitrary: b)
  case Nil
  then show ?case by (simp add: wordtok_def)
next
  case (Cons c t)
  from Cons.prems have c: "\<not> is_space c" and all: "list_all is_word_char t"
    by (simp_all add: wordtok_def wordtok_no_space)
  show ?case
  proof (cases "t = []")
    case True
    with c show ?thesis by simp
  next
    case False
    with all have "wordtok t" by (simp add: wordtok_def)
    from Cons.IH[OF this, of False] c show ?thesis by simp
  qed
qed

lemma sp_ok_toks:
  assumes "\<And>t. t \<in> set ts \<Longrightarrow> f t = t \<or> (wordtok t \<and> wordtok (f t))"
  shows "sp_ok b (concat (map f ts)) = sp_ok b (concat ts)"
  using assms
proof (induction ts arbitrary: b)
  case Nil
  then show ?case by simp
next
  case (Cons t ts)
  have ih: "sp_ok b' (concat (map f ts)) = sp_ok b' (concat ts)" for b'
    by (rule Cons.IH) (simp add: Cons.prems)
  have "f t = t \<or> (wordtok t \<and> wordtok (f t))" by (rule Cons.prems) simp
  then show ?case
  proof
    assume ft: "f t = t"
    have "sp_ok b (t @ u) = sp_ok b (t @ v)" if "\<And>b'. sp_ok b' u = sp_ok b' v" for u v
      using that by (induction t arbitrary: b) simp_all
    from this[of "concat (map f ts)" "concat ts"] ih show ?thesis by (simp add: ft)
  next
    assume "wordtok t \<and> wordtok (f t)"
    then show ?thesis by (simp add: sp_ok_word ih)
  qed
qed

lemma clean_address_str:
  "clean_address (PStr x) =
     (if x = [] then []
      else py_upper (sub_all True (directional_map @ street_types) (re_collapse_ws (py_strip x))))"
  by (simp add: clean_address_def sub_all_append)

lemma clean_body_tokens:
  "py_upper (sub_all True (directional_map @ street_types) s) = concat (map abbreviate (runs s))"
proof -
  have "abbreviate = (\<lambda>t. py_upper (rep_all True (directional_map @ street_types) t))"
    by (rule ext) (simp add: abbreviate_def)
  then show ?thesis
    by (simp add: sub_all_runs[OF tables_good] upper_concat comp_def)
qed

lemma abbreviate_shape:
  assumes "toks ts" "t \<in> set ts" "is_ascii t"
  shows "abbreviate t = t \<or> (wordtok t \<and> wordtok (abbreviate t))"
proof -
  let ?u = "rep_all True (directional_map @ street_types) t"
  have au: "is_ascii ?u" by (rule rep_all_ascii[OF tables_good assms(3)])
  from toks_shape[OF assms(1,2)] show ?thesis
  proof
    assume w: "wordtok t"
    with rep_all_shape[OF tables_good, of True t] have "wordtok ?u" by auto
    from wordtok_upper[OF au this] w show ?thesis by (simp add: abbreviate_def)
  next
    assume "\<exists>c. t = [c] \<and> \<not> is_word_char c"
    then obtain c where t: "t = [c]" and c: "\<not> is_word_char c" by blast
    then have "\<not> wordtok t" by (simp add: wordtok_def)
    with rep_all_shape[OF tables_good, of True t] have u: "?u = t" by auto
    have "py_upper t = t" using assms(3) by (simp add: upper_ascii t nonword_up[OF c])
    with u show ?thesis by (simp add: abbreviate_def)
  qed
qed

lemma abbreviate_idem:
  assumes "is_ascii t"
  shows "abbreviate (abbreviate t) = abbreviate t"
proof -
  let ?tb = "directional_map @ street_types"
  let ?u = "rep_all True ?tb t"
  have au: "is_ascii ?u" by (rule rep_all_ascii[OF tables_good assms])
  have no: "\<not> list_all2 (ch_match True) k ?u" if "(k, r) \<in> set ?tb" for k r
  proof (rule rep_all_no_key[of ?tb ?tb, OF _ _ that])
    show "\<not> list_all2 (ch_match True) k r'" if "(k, r) \<in> set ?tb" "(k', r') \<in> set ?tb"
      for k r k' r' by (rule closed_tableD[OF tables_closed that(2) that(1)])
    show "set ?tb \<subseteq> set ?tb" by simp
  qed
  have "rep_all True ?tb (py_upper ?u) = py_upper ?u"
  proof (rule rep_all_id)
    fix k r assume "(k, r) \<in> set ?tb"
    from no[OF this] show "\<not> list_all2 (ch_match True) k (py_upper ?u)"
      by (simp add: match_upper[OF au])
  qed
  then show ?thesis by (simp add: abbreviate_def upper_idem[OF au])
qed

lemma clean_address_idem_ascii:
  assumes x: "is_ascii x"
  shows "clean_address (PStr (clean_address (PStr x))) = clean_address (PStr x)"
proof (cases "x = []")
  case True
  then show ?thesis by (simp add: clean_address_str)
next
  case False
  define A where "A = re_collapse_ws (py_strip x)"
  define y where "y = concat (map abbreviate (runs A))"
  have A: "is_ascii A" "tidy A"
    by (simp_all add: A_def is_ascii_collapse is_ascii_strip x tidy_collapse_strip)
  have cx: "clean_address (PStr x) = y"
    using False by (simp add: clean_address_str clean_body_tokens A_def y_def)
  have shape: "abbreviate t = t \<or> (wordtok t \<and> wordtok (abbreviate t))" if "t \<in> set (runs A)" for t
    by (rule abbreviate_shape[OF toks_runs that is_ascii_runs[OF A(1) that]])
  have tk: "toks (map abbreviate (runs A))"
    by (rule toks_map[OF toks_runs shape])
  have ry: "runs y = map abbreviate (runs A)"
    unfolding y_def by (rule toks_runs_concat[OF tk])
  have sp: "sp_ok True y = sp_ok True A"
    using sp_ok_toks[of "runs A" abbreviate True, OF shape] by (simp add: y_def runs_concat)
  have "A = [] \<Longrightarrow> y = []" by (simp add: y_def)
  with A(2) sp have "tidy y" by (auto simp: tidy_def)
  then have fx: "re_collapse_ws (py_strip y) = y" by (rule tidy_fix)
  have idem: "map abbreviate (map abbreviate (runs A)) = map abbreviate (runs A)"
    by (simp add: abbreviate_idem is_ascii_runs[OF A(1)])
  show ?thesis
  proof (cases "y = []")
    case True
    show ?thesis unfolding cx unfolding True by (simp add: clean_address_str)
  next
    case ne: False
    have "clean_address (PStr y) = concat (map abbreviate (runs y))"
      using ne by (simp add: clean_address_str clean_body_tokens fx)
    also have "\<dots> = concat (map abbreviate (map abbreviate (runs A)))" by (simp only: ry)
    also have "\<dots> = concat (map abbreviate (runs A))" by (simp only: idem)
    also have "\<dots> = y" by (simp only: y_def)
    finally show ?thesis unfolding cx .
  qed
qed

text \<open>the cache-key cleaner\<close>

lemma same_lettersD:
  "same_letters table \<Longrightarrow> (k, r) \<in> set table \<Longrightarrow> map char_lower r = map char_lower k"
  by (auto simp: same_letters_def list_all_iff)

lemma exact_match: "list_all2 (ch_match False) k t \<Longrightarrow> t = k"
  by (induction k t rule: list_all2_induct) (simp_all add: ch_match_def)

lemma rep_all_lower:
  "same_letters table \<Longrightarrow> map char_lower (rep_all False table t) = map char_lower t"
proof (induction table arbitrary: t)
  case Nil
  then show ?case by simp
next
  case (Cons kr table)
  obtain k r where kr: "kr = (k, r)" by (cases kr)
  from Cons.prems have s: "map char_lower r = map char_lower k" "same_letters table"
    by (simp_all add: kr same_letters_def)
  have "map char_lower (rep False k r t) = map char_lower t"
  proof (cases "list_all2 (ch_match False) k t")
    case True
    have "rep False k r t = r" by (rule rep_match[OF True])
    moreover have "t = k" by (rule exact_match[OF True])
    ultimately show ?thesis by (simp add: s(1))
  next
    case False
    then show ?thesis by (simp add: rep_nomatch)
  qed
  with Cons.IH[OF s(2), of "rep False k r t"] show ?case by (simp add: kr)
qed

lemma sub_all_cache_lower:
  "map char_lower (sub_all False cache_abbreviations s) = map char_lower s"
proof -
  have "map char_lower (concat (map (rep_all False cache_abbreviations) ts)) = map char_lower (concat ts)"
    for ts by (induction ts) (simp_all add: rep_all_lower[OF cache_same])
  from this[of "runs s"] show ?thesis
    by (simp add: sub_all_runs[OF cache_good] runs_concat)
qed

lemma sub_all_cache_ascii:
  assumes "is_ascii s" shows "is_ascii (sub_all False cache_abbreviations s)"
  unfolding sub_all_runs[OF cache_good] is_ascii_concat
  using rep_all_ascii[OF cache_good is_ascii_runs[OF assms]] by auto

lemma cache_lower:
  assumes "is_ascii x"
  shows "map char_lower (clean_address_for_cache x) = map char_lower (re_collapse_ws (py_strip x))"
proof (cases "x = []")
  case True
  then show ?thesis by (simp add: clean_address_for_cache_def py_strip_def)
next
  case False
  have "is_ascii (re_collapse_ws (py_strip x))"
    by (simp add: is_ascii_collapse is_ascii_strip assms)
  then show ?thesis
    using False by (simp add: clean_address_for_cache_def sub_all_cache_lower py_title_def title_lower)
qed

lemma cache_idem_ascii:
  assumes x: "is_ascii x"
  shows "clean_address_for_cache (clean_address_for_cache x) = clean_address_for_cache x"
proof (cases "x = []")
  case True
  then show ?thesis by (simp add: clean_address_for_cache_def)
next
  case False
  define A where "A = re_collapse_ws (py_strip x)"
  define y where "y = sub_all False cache_abbreviations (py_title A)"
  have A: "is_ascii A" "tidy A"
    by (simp_all add: A_def is_ascii_collapse is_ascii_strip x tidy_collapse_strip)
  have cx: "clean_address_for_cache x = y"
    using False by (simp add: clean_address_for_cache_def A_def y_def)
  have ly: "map char_lower y = map char_lower A"
    using cache_lower[OF x] by (simp add: cx A_def)
  have ay: "is_ascii y"
    unfolding y_def py_title_def by (rule sub_all_cache_ascii[OF is_ascii_title[OF A(1)]])
  have "A = [] \<Longrightarrow> y = []" using ly by simp
  with A(2) sp_ok_lower[OF ly, of True] have "tidy y" by (auto simp: tidy_def)
  then have fx: "re_collapse_ws (py_strip y) = y" by (rule tidy_fix)
  have ty: "py_title y = py_title A"
    unfolding py_title_def by (rule title_cong[OF ly ay A(1)])
  show ?thesis
  proof (cases "y = []")
    case True
    show ?thesis unfolding cx unfolding True by (simp add: clean_address_for_cache_def)
  next
    case ne: False
    then have "clean_address_for_cache y = sub_all False cache_abbreviations (py_title y)"
      by (simp add: clean_address_for_cache_def fx)
    also have "\<dots> = sub_all False cache_abbreviations (py_title A)" by (simp only: ty)
    also have "\<dots> = y" by (simp only: y_def)
    finally show ?thesis unfolding cx .
  qed
qed

lemma sub_word_same:
  assumes "wordpat k"
  shows "re_sub_word False k k s = s"
proof -
  have "rep False k k t = t" for t
    using exact_match[of k t] by (cases "list_all2 (ch_match False) k t") (auto simp: rep_match rep_nomatch)
  then have "map (rep False k k) (runs s) = runs s"
    by (simp add: map_idI)
  then show ?thesis
    by (simp add: re_sub_word_def sub_from_runs[OF assms] runs_concat)
qed

lemma cache_only_FL:
  "sub_all False cache_abbreviations s = re_sub_word False (ustr ''Fl'') (ustr ''FL'') s"
proof -
  have w: "wordpat (ustr ''Rd'')" "wordpat (ustr ''St'')" "wordpat (ustr ''Ave'')"
    "wordpat (ustr ''Dr'')" "wordpat (ustr ''Ln'')" "wordpat (ustr ''Ct'')"
    "wordpat (ustr ''Pl'')" "wordpat (ustr ''Blvd'')"
    by code_simp+
  show ?thesis
    by (simp add: cache_abbreviations_def sub_word_same w)
qed

lemma map_fields_lookup:
  "distinct (map fst mapping) \<Longrightarrow>
   map_fields mapping raw nd k =
     (case map_of mapping k of
        None \<Rightarrow> nd k
      | Some src \<Rightarrow> (case mapped_value raw src of None \<Rightarrow> nd k | Some v \<Rightarrow> Some v))"
proof (induction mapping arbitrary: nd)
  case Nil
  then show ?case by (simp add: map_fields_def)
next
  case (Cons p mapping)
  obtain std src where p: "p = (std, src)" by (cases p)
  from Cons.prems have d: "distinct (map fst mapping)" and n: "std \<notin> fst ` set mapping"
    by (simp_all add: p)
  define nd' where "nd' = (case mapped_value raw src of None \<Rightarrow> nd | Some v \<Rightarrow> nd(std \<mapsto> v))"
  have step: "map_fields (p # mapping) raw nd = map_fields mapping raw nd'"
    by (simp add: map_fields_def p nd'_def mapped_value_def split: option.splits)
  have none: "map_of mapping std = None" using n by (simp add: map_of_eq_None_iff)
  have ih: "map_fields mapping raw nd' k =
     (case map_of mapping k of
        None \<Rightarrow> nd' k
      | Some src \<Rightarrow> (case mapped_value raw src of None \<Rightarrow> nd' k | Some v \<Rightarrow> Some v))"
    by (rule Cons.IH[OF d])
  show ?case
  proof (cases "k = std")
    case True
    have "map_fields mapping raw nd' std = nd' std"
      using ih none by (simp add: True)
    then show ?thesis
      unfolding step True by (simp add: p nd'_def split: option.splits)
  next
    case False
    have "nd' k = nd k" using False by (simp add: nd'_def split: option.splits)
    then show ?thesis
      unfolding step ih using False by (simp add: p split: option.splits)
  qed
qed

lemma default_step_same: "default_step (f, d0) nd f = default_filled d0 (nd f)"
  by (simp add: default_step_def default_filled_def split: option.splits)

lemma default_step_other: "k \<noteq> f \<Longrightarrow> default_step (f, d0) nd k = nd k"
  by (simp add: default_step_def split: option.splits)

lemma fill_defaults_fold:
  "distinct (map fst ds) \<Longrightarrow>
   fold default_step ds nd k =
     (case map_of ds k of None \<Rightarrow> nd k | Some d \<Rightarrow> default_filled d (nd k))"
proof (induction ds arbitrary: nd)
  case Nil
  then show ?case by simp
next
  case (Cons p ds)
  obtain f d0 where p: "p = (f, d0)" by (cases p)
  from Cons.prems have d: "distinct (map fst ds)" and n: "f \<notin> fst ` set ds"
    by (simp_all add: p)
  have none: "map_of ds f = None" using n by (simp add: map_of_eq_None_iff)
  have ih: "fold default_step ds (default_step (f, d0) nd) k =
     (case map_of ds k of None \<Rightarrow> default_step (f, d0) nd k
      | Some d \<Rightarrow> default_filled d (default_step (f, d0) nd k))"
    by (rule Cons.IH[OF d])
  show ?case
  proof (cases "k = f")
    case True
    show ?thesis
      using ih none unfolding True p by (simp add: default_step_same)
  next
    case False
    show ?thesis
      using ih False unfolding p by (simp add: default_step_other split: option.splits)
  qed
qed

lemma fill_defaults_alt: "fill_defaults nd = fold default_step required_defaults nd"
  by (simp add: fill_defaults_def default_step_def)

lemma required_defaults_distinct: "distinct (map fst required_defaults)"
  by (simp add: required_defaults_def)

lemma fill_defaults_lookup:
  "fill_defaults nd k =
     (case map_of required_defaults k of None \<Rightarrow> nd k | Some d \<Rightarrow> default_filled d (nd k))"
  by (subst fill_defaults_alt) (rule fill_defaults_fold[OF required_defaults_distinct])

lemma default_filled_Some: "default_filled d x \<noteq> None"
  by (simp add: default_filled_def split: option.splits)

lemma required_defaults_map_of:
  "map_of required_defaults ''permit_id'' = Some (ustr ''UNKNOWN'')"
  "map_of required_defaults ''permit_type'' = Some (ustr ''UNKNOWN'')"
  "map_of required_defaults ''description'' = Some []"
  "map_of required_defaults ''address'' = Some []"
  "map_of required_defaults ''city'' = Some []"
  "map_of required_defaults ''zipcode'' = Some []"
  "map_of required_defaults ''source_county'' = None"
  "map_of required_defaults ''coordinates'' = None"
  "map_of required_defaults ''applicant_name'' = None"
  "map_of required_defaults ''contractor_name'' = None"
  "map_of required_defaults ''permit_value'' = None"
  "map_of required_defaults ''issue_date'' = None"
  "map_of required_defaults ''expiration_date'' = None"
  "map_of required_defaults ''status'' = None"
  by (simp_all add: required_defaults_def)

lemma make_permit_filled:
  assumes "nd ''source_county'' \<noteq> None"
  shows "make_permit e (fill_defaults nd) = Inr (permit_of e (fill_defaults nd))"
  unfolding make_permit_def permit_of_def
  using assms
  by (simp add: fill_defaults_lookup required_defaults_map_of default_filled_Some)

lemma geocode_step_other:
  "k \<noteq> ''coordinates'' \<Longrightarrow> fst (geocode_step e s nd) k = nd k"
  by (simp add: geocode_step_def split: prod.splits)

lemma convert_permit_value_other:
  "k \<noteq> ''permit_value'' \<Longrightarrow> convert_permit_value nd k = nd k"
  by (simp add: convert_permit_value_def Let_def split: option.splits nval.splits)

lemma clean_address_field_other:
  "k \<noteq> ''address'' \<Longrightarrow> clean_address_field nd k = nd k"
  by (simp add: clean_address_field_def split: option.splits nval.splits)

lemma join_descriptions_other:
  "k \<noteq> ''description'' \<Longrightarrow> join_descriptions county raw nd k = nd k"
  by (simp add: join_descriptions_def)

lemma normalize_permit_unfold:
  assumes "field_mappings_get (county_of raw) = Inr mapping"
  shows "normalize_permit e s raw =
    (make_permit e (fill_defaults (fst (geocode_step e s (pre_data e raw mapping)))),
     snd (geocode_step e s (pre_data e raw mapping)))"
  by (simp add: normalize_permit_def assms pre_data_def Let_def split: prod.splits)

lemma mappings_distinct:
  "distinct (map fst miami_dade_mapping)" "distinct (map fst hillsborough_mapping)"
  by (simp_all add: miami_dade_mapping_def hillsborough_mapping_def)

lemma field_mappings_cases:
  assumes "field_mappings_get county = Inr mapping"
  shows "hashable county \<and> distinct (map fst mapping) \<and> map_of mapping ''source_county'' = None"
  using assms
  by (auto simp: field_mappings_get_def miami_dade_mapping_def hillsborough_mapping_def
      split: if_splits)

lemma pre_data_county:
  assumes "field_mappings_get (county_of raw) = Inr mapping"
  shows "pre_data e raw mapping ''source_county'' = Some (NRaw (county_of raw))"
  using field_mappings_cases[OF assms]
  by (simp add: pre_data_def clean_address_field_other convert_permit_value_other
      join_descriptions_other map_fields_lookup)

lemma normalize_permit_result:
  assumes "field_mappings_get (county_of raw) = Inr mapping"
  shows "normalize_permit e s raw =
    (Inr (permit_of e (fill_defaults (fst (geocode_step e s (pre_data e raw mapping))))),
     snd (geocode_step e s (pre_data e raw mapping)))"
proof -
  have "fst (geocode_step e s (pre_data e raw mapping)) ''source_county'' \<noteq> None"
    by (simp add: geocode_step_other pre_data_county[OF assms])
  from make_permit_filled[of "fst (geocode_step e s (pre_data e raw mapping))" e, OF this] show ?thesis
    by (simp add: normalize_permit_unfold[OF assms])
qed

lemma normalize_permit_raises:
  "\<not> hashable (county_of raw) \<Longrightarrow> normalize_permit e s raw = (Inl TypeError, s)"
  by (simp add: normalize_permit_def field_mappings_get_def)

lemma field_mappings_hashable:
  "hashable county \<Longrightarrow> \<exists>mapping. field_mappings_get county = Inr mapping"
  by (simp add: field_mappings_get_def)

lemma desc_keys:
  "map (\<lambda>i. ''DESC'' @ str_nat i) [1..<11] =
     [''DESC1'', ''DESC2'', ''DESC3'', ''DESC4'', ''DESC5'', ''DESC6'', ''DESC7'', ''DESC8'',
      ''DESC9'', ''DESC10'']"
  by code_simp

lemma concat_kept:
  "concat (map (\<lambda>k. case raw k of None \<Rightarrow> [] | Some v \<Rightarrow> if truthy v then [g v] else []) ks) =
     map g (filter truthy (List.map_filter raw ks))"
  by (induction ks) (simp_all add: map_filter_simps split: option.splits)

lemma desc_parts_keys:
  "desc_parts raw =
     map (\<lambda>v. py_strip (py_str v))
       (filter truthy (List.map_filter raw
          [''DESC1'', ''DESC2'', ''DESC3'', ''DESC4'', ''DESC5'', ''DESC6'', ''DESC7'', ''DESC8'',
           ''DESC9'', ''DESC10'']))"
proof -
  have "desc_parts raw =
     concat (map (\<lambda>k. case raw k of None \<Rightarrow> [] | Some v \<Rightarrow> if truthy v then [py_strip (py_str v)] else [])
       (map (\<lambda>i. ''DESC'' @ str_nat i) [1..<11]))"
    unfolding desc_parts_def map_map comp_def ..
  then show ?thesis
    unfolding desc_keys by (simp only: concat_kept)
qed

lemma result_plain_field:
  assumes "k \<noteq> ''coordinates''" "map_of required_defaults k = None"
  shows "field_or_none (fill_defaults (fst (geocode_step e s nd))) k = field_or_none nd k"
  by (simp add: field_or_none_def fill_defaults_lookup assms geocode_step_other)

lemma result_default_field:
  assumes "k \<noteq> ''coordinates''" "map_of required_defaults k = Some d"
  shows "field_or_none (fill_defaults (fst (geocode_step e s nd))) k =
           (case nd k of None \<Rightarrow> NRaw (PStr d)
            | Some v \<Rightarrow> if n_truthy v then v else NRaw (PStr d))"
  by (simp add: field_or_none_def fill_defaults_lookup assms geocode_step_other default_filled_def
      split: option.splits)

lemma issue_date_result:
  assumes "fst (normalize_permit e s raw) = Inr p"
  shows "issue_date p = NRaw (PStr (today e))"
proof (cases "hashable (county_of raw)")
  case False
  with assms show ?thesis by (simp add: normalize_permit_raises)
next
  case True
  then obtain mapping where m: "field_mappings_get (county_of raw) = Inr mapping"
    using field_mappings_hashable by blast
  have pd: "pre_data e raw mapping ''issue_date'' = Some (NRaw (PStr (today e)))"
    by (simp add: pre_data_def)
  have "field_or_none (fill_defaults (fst (geocode_step e s (pre_data e raw mapping)))) ''issue_date''
      = field_or_none (pre_data e raw mapping) ''issue_date''"
    by (rule result_plain_field) (simp_all add: required_defaults_map_of)
  also have "\<dots> = NRaw (PStr (today e))"
    by (simp add: field_or_none_def pd)
  finally have "field_or_none (fill_defaults (fst (geocode_step e s (pre_data e raw mapping)))) ''issue_date''
      = NRaw (PStr (today e))" .
  with assms show ?thesis
    by (auto simp: normalize_permit_result[OF m] permit_of_def)
qed

lemma normalize_permit_returns:
  "hashable (county_of raw) \<Longrightarrow> \<exists>p. fst (normalize_permit e s raw) = Inr p"
  using field_mappings_hashable[of "county_of raw"] normalize_permit_result[of raw _ e s]
  by fastforce

lemma unmapped_pre_data:
  assumes "county_of raw \<noteq> PStr (ustr ''miami-dade'')"
  shows "pre_data e raw [] =
     [''source_county'' \<mapsto> NRaw (county_of raw), ''issue_date'' \<mapsto> NRaw (PStr (today e))]"
  using assms
  by (simp add: pre_data_def map_fields_def join_descriptions_def convert_permit_value_def
      clean_address_field_def)

lemma unmapped_geocode_step:
  "geocode_step e s [''source_county'' \<mapsto> c, ''issue_date'' \<mapsto> d] =
     ([''source_county'' \<mapsto> c, ''issue_date'' \<mapsto> d], s)"
  by (simp add: geocode_step_def get_or_empty_def)

lemma unmapped_county:
  assumes "hashable county" "county \<noteq> PStr (ustr ''miami-dade'')"
    "county \<noteq> PStr (ustr ''hillsborough'')"
  shows "field_mappings_get county = Inr []"
  using assms by (simp add: field_mappings_get_def)

section \<open>The claims\<close>

text \<open>
  C1 (amended). For every ASCII string both address cleaners are idempotent: cleaning a
  cleaned address changes nothing, in the display mode (\<open>clean_address\<close>) and in the
  cache-key mode (\<open>clean_address_for_cache\<close>).
\<close>

theorem C1_cleaners_idempotent_on_ascii:
  "is_ascii x \<Longrightarrow>
   clean_address (PStr (clean_address (PStr x))) = clean_address (PStr x) \<and>
   clean_address_for_cache (clean_address_for_cache x) = clean_address_for_cache x"
  by (simp add: clean_address_idem_ascii cache_idem_ascii)

theorem C1_cleaners_idempotent_on_ascii_witness:
  "is_ascii (ustr ''  123   north Main Street, miami fl '') \<and>
   clean_address (PStr (clean_address (PStr (ustr ''  123   north Main Street, miami fl '')))) =
     clean_address (PStr (ustr ''  123   north Main Street, miami fl '')) \<and>
   clean_address_for_cache (clean_address_for_cache (ustr ''  123   north Main Street, miami fl '')) =
     clean_address_for_cache (ustr ''  123   north Main Street, miami fl '')"
proof -
  have a: "is_ascii (ustr ''  123   north Main Street, miami fl '')" by code_simp
  from a C1_cleaners_idempotent_on_ascii[OF a] show ?thesis by blast
qed

text \<open>
  C1 as stated, for every string, fails in the display mode: \<open>str.upper\<close> turns the
  ligature U+FB06 into the two letters \<open>ST\<close>, so a word that no pattern matched in the
  first pass is the word \<open>STREET\<close> in the second.
\<close>

theorem C1_idempotence_counterexample:
  "clean_address (PStr [64262, 114, 101, 101, 116]) = ustr ''STREET'' \<and>
   clean_address (PStr (clean_address (PStr [64262, 114, 101, 101, 116]))) = ustr ''ST''"
  by code_simp

text \<open>
  C4 (amended). The cache-key cleaner strips and collapses whitespace, converts to title
  case and writes the whole word \<open>Fl\<close> as \<open>FL\<close>; its other eight substitutions replace a
  word by itself. It expands neither directional words nor street types: for every ASCII
  address the result has the letters of the whitespace-collapsed address, up to case.
\<close>

theorem C4_cache_cleaner_changes_case_only:
  "is_ascii x \<Longrightarrow>
   clean_address_for_cache x =
     re_sub_word False (ustr ''Fl'') (ustr ''FL'') (py_title (re_collapse_ws (py_strip x))) \<and>
   map char_lower (clean_address_for_cache x) = map char_lower (re_collapse_ws (py_strip x))"
proof -
  assume a: "is_ascii x"
  have "clean_address_for_cache x =
     re_sub_word False (ustr ''Fl'') (ustr ''FL'') (py_title (re_collapse_ws (py_strip x)))"
  proof (cases "x = []")
    case True
    then show ?thesis
      by (simp add: clean_address_for_cache_def py_strip_def py_title_def re_sub_word_def)
  next
    case False
    then show ?thesis by (simp add: clean_address_for_cache_def cache_only_FL)
  qed
  with cache_lower[OF a] show ?thesis by simp
qed

theorem C4_cache_cleaner_changes_case_only_witness:
  "is_ascii (ustr ''100  NORTH main STREET, miami fl'') \<and>
   clean_address_for_cache (ustr ''100  NORTH main STREET, miami fl'') =
     re_sub_word False (ustr ''Fl'') (ustr ''FL'')
       (py_title (re_collapse_ws (py_strip (ustr ''100  NORTH main STREET, miami fl'')))) \<and>
   map char_lower (clean_address_for_cache (ustr ''100  NORTH main STREET, miami fl'')) =
     map char_lower (re_collapse_ws (py_strip (ustr ''100  NORTH main STREET, miami fl'')))"
proof -
  have a: "is_ascii (ustr ''100  NORTH main STREET, miami fl'')" by code_simp
  from a C4_cache_cleaner_changes_case_only[OF a] show ?thesis by blast
qed

text \<open>
  C4 as stated fails: the cache-key cleaner leaves \<open>NORTH\<close> and \<open>STREET\<close> as the words
  \<open>North\<close> and \<open>Street\<close>, where the display cleaner writes \<open>N\<close> and \<open>ST\<close>.
\<close>

theorem C4_no_expansion_counterexample:
  "clean_address_for_cache (ustr ''100  NORTH main STREET, miami fl'') =
     ustr ''100 North Main Street, Miami FL'' \<and>
   clean_address (PStr (ustr ''100  NORTH main STREET, miami fl'')) =
     ustr ''100 N MAIN ST, MIAMI FL''"
  by code_simp

text \<open>
  C9. Whenever \<open>normalize_permit\<close> returns a record, its \<open>issue_date\<close> is the current
  processing date (the formatted clock of the run), whatever the raw record holds in its
  own mapped issue-date field; and it returns a record for every raw permit whose
  \<open>source_county\<close> tag can be hashed.
\<close>

theorem C9_issue_date_is_processing_date:
  "(hashable (county_of raw) \<longrightarrow> (\<exists>p. fst (normalize_permit e s raw) = Inr p)) \<and>
   (\<forall>p. fst (normalize_permit e s raw) = Inr p \<longrightarrow> issue_date p = NRaw (PStr (today e)))"
  using normalize_permit_returns issue_date_result by blast

theorem C9_issue_date_is_processing_date_witness:
  "miami_example ''ISSUDATE'' = Some (PStr (ustr ''01/15/2020'')) \<and>
   hashable (county_of miami_example) \<and>
   (\<exists>p. fst (normalize_permit example_env example_processor miami_example) = Inr p \<and>
        issue_date p = NRaw (PStr (ustr ''11/04/2026'')))"
proof -
  have h: "hashable (county_of miami_example)"
    by (simp add: county_of_def miami_example_def)
  have t: "today example_env = ustr ''11/04/2026''" by (simp add: example_env_def)
  have r: "miami_example ''ISSUDATE'' = Some (PStr (ustr ''01/15/2020''))"
    by (simp add: miami_example_def)
  from C9_issue_date_is_processing_date[of miami_example example_env example_processor] h
  obtain p where "fst (normalize_permit example_env example_processor miami_example) = Inr p"
    and "issue_date p = NRaw (PStr (today example_env))" by blast
  with h t r show ?thesis by auto
qed

text \<open>
  C10 (amended). For every raw permit whose \<open>source_county\<close> tag is absent, or is a
  hashable value other than the two mapped counties, \<open>normalize_permit\<close> does not raise,
  leaves the processor as it was, and returns the record of the documented defaults, with
  \<open>source_county\<close> the raw tag, or \<open>unknown\<close> when the tag is absent.
\<close>

theorem C10_unmapped_county_gets_defaults:
  assumes "hashable (county_of raw)"
    and "county_of raw \<noteq> PStr (ustr ''miami-dade'')"
    and "county_of raw \<noteq> PStr (ustr ''hillsborough'')"
  shows "normalize_permit e s raw =
    (Inr \<lparr>permit_id = NRaw (PStr (ustr ''UNKNOWN'')),
          source_county =
            NRaw (case raw ''source_county'' of None \<Rightarrow> PStr (ustr ''unknown'') | Some tag \<Rightarrow> tag),
          permit_type = NRaw (PStr (ustr ''UNKNOWN'')),
          description = NRaw (PStr []),
          address = NRaw (PStr []),
          city = NRaw (PStr []),
          zipcode = NRaw (PStr []),
          coordinates = NRaw PNone,
          applicant_name = NRaw PNone,
          contractor_name = NRaw PNone,
          permit_value = NRaw PNone,
          issue_date = NRaw (PStr (today e)),
          expiration_date = NRaw PNone,
          status = NRaw PNone,
          last_updated = NRaw (PStr (now_iso e))\<rparr>, s)"
proof -
  have m: "field_mappings_get (county_of raw) = Inr []"
    by (rule unmapped_county[OF assms])
  have c: "(case raw ''source_county'' of None \<Rightarrow> PStr (ustr ''unknown'') | Some tag \<Rightarrow> tag)
      = county_of raw"
    by (simp add: county_of_def)
  show ?thesis
    unfolding normalize_permit_result[OF m] unmapped_pre_data[OF assms(2)] unmapped_geocode_step c
    by (simp add: permit_of_def field_or_none_def fill_defaults_lookup required_defaults_map_of
        default_filled_def)
qed

theorem C10_unmapped_county_gets_defaults_witness:
  "hashable (county_of broward_example) \<and>
   county_of broward_example \<noteq> PStr (ustr ''miami-dade'') \<and>
   county_of broward_example \<noteq> PStr (ustr ''hillsborough'') \<and>
   (\<exists>p. normalize_permit example_env example_processor broward_example = (Inr p, example_processor) \<and>
        permit_id p = NRaw (PStr (ustr ''UNKNOWN'')) \<and>
        address p = NRaw (PStr []) \<and>
        source_county p = NRaw (PStr (ustr ''broward'')))"
proof -
  have h: "hashable (county_of broward_example)" by (simp add: county_of_def broward_example_def)
  have a: "county_of broward_example \<noteq> PStr (ustr ''miami-dade'')" by code_simp
  have b: "county_of broward_example \<noteq> PStr (ustr ''hillsborough'')" by code_simp
  have t: "broward_example ''source_county'' = Some (PStr (ustr ''broward''))"
    by (simp add: broward_example_def)
  from C10_unmapped_county_gets_defaults[OF h a b, of example_env example_processor] h a b
  show ?thesis by (simp add: t)
qed

text \<open>
  C10 as stated fails for a tag that cannot be hashed, such as a list: the lookup of the
  field mapping raises \<open>TypeError\<close>.
\<close>

theorem C10_unhashable_tag_counterexample:
  "county_of [''source_county'' \<mapsto> PObj False False (ustr ''[]'')] \<noteq> PStr (ustr ''miami-dade'') \<and>
   county_of [''source_county'' \<mapsto> PObj False False (ustr ''[]'')] \<noteq> PStr (ustr ''hillsborough'') \<and>
   fst (normalize_permit example_env example_processor
          [''source_county'' \<mapsto> PObj False False (ustr ''[]'')]) = Inl TypeError"
  by code_simp

end
